theory Spec2Isabelle
  imports Main "HOL-Library.Word"
begin

section \<open>Link graph jobs of the cargo distribution (linkgraph/linkgraphjob.cpp)\<close>

text \<open>
  The development embeds \<^verbatim>\<open>linkgraphjob.cpp\<close>: the legs of the flow tree
  (\<^verbatim>\<open>Path::Path\<close>, \<^verbatim>\<open>Path::Fork\<close>, \<^verbatim>\<open>Path::AddFlow\<close>) and the job
  (\<^verbatim>\<open>LinkGraphJob::LinkGraphJob\<close>, \<^verbatim>\<open>EraseFlows\<close>, \<^verbatim>\<open>JoinThread\<close>,
  \<^verbatim>\<open>FinaliseJob\<close>, \<^verbatim>\<open>Init\<close>).

  \<^verbatim>\<open>uint\<close> is a 32-bit word with wrapping arithmetic and unsigned order;
  \<^verbatim>\<open>int\<close> is a 32-bit word read with \<open>sint\<close>. The identifier types
  (\<^verbatim>\<open>StationID\<close>, \<^verbatim>\<open>NodeID\<close>, \<^verbatim>\<open>LinkGraphID\<close>, \<^verbatim>\<open>CargoID\<close>) are
  declared in headers outside this file; no arithmetic is done on them here, they are
  natural numbers. Objects reached through pointers (\<^verbatim>\<open>Path *\<close>) live in an
  explicit store from addresses to records; \<^verbatim>\<open>nullptr\<close> is \<open>None\<close>.
\<close>

subsection \<open>Data model\<close>

type_synonym u32 = "32 word"
type_synonym i32 = "32 word"
type_synonym StationID = nat
type_synonym NodeID = nat
type_synonym LinkGraphID = nat
type_synonym CargoID = nat
type_synonym Date = "32 word"
type_synonym addr = nat

definition UINT_MAX :: u32 where
  "UINT_MAX = 0xFFFFFFFF"

definition INT_MAX :: i32 where
  "INT_MAX = 0x7FFFFFFF"

definition INT_MIN :: i32 where
  "INT_MIN = 0x80000000"

text \<open>\<^verbatim>\<open>INVALID_NODE\<close>, \<^verbatim>\<open>INVALID_STATION\<close> and \<^verbatim>\<open>INVALID_DATE\<close> are the
  sentinels of their types; their numeric values come from headers outside this file.\<close>

definition INVALID_NODE :: NodeID where
  "INVALID_NODE = 0xFFFF"

definition INVALID_STATION :: StationID where
  "INVALID_STATION = 0xFFFF"

definition INVALID_DATE :: Date where
  "INVALID_DATE = - 1"

text \<open>The template \<^verbatim>\<open>min(a, b)\<close> is \<^verbatim>\<open>(a < b) ? a : b\<close>; on \<^verbatim>\<open>uint\<close>
  the order is unsigned, on \<^verbatim>\<open>int\<close> it is signed.\<close>

definition min_uint :: "u32 \<Rightarrow> u32 \<Rightarrow> u32" where
  "min_uint a b = (if a < b then a else b)"

definition min_int :: "i32 \<Rightarrow> i32 \<Rightarrow> i32" where
  "min_int a b = (if sint a < sint b then a else b)"

text \<open>A leg of a path. \<open>parent\<close> is what \<^verbatim>\<open>GetParent()\<close> returns.\<close>

record Path =
  distance :: u32
  capacity :: u32
  free_capacity :: i32
  flow :: u32
  node :: NodeID
  origin :: NodeID
  num_children :: u32
  parent :: "addr option"

type_synonym heap = "addr \<rightharpoonup> Path"

text \<open>\<^verbatim>\<open>Path::Path(NodeID n, bool source)\<close>.\<close>

definition new_Path :: "NodeID \<Rightarrow> bool \<Rightarrow> Path" where
  "new_Path n source =
     \<lparr> distance = (if source then 0 else UINT_MAX),
       capacity = (if source then UINT_MAX else 0),
       free_capacity = (if source then INT_MAX else INT_MIN),
       flow = 0, node = n, origin = (if source then n else INVALID_NODE),
       num_children = 0, parent = None \<rparr>"

text \<open>The link graph: the live one of the pool and, copied, the snapshot of a job.
  \<open>lg_edges n\<close> lists the destinations of the outgoing edges of node \<open>n\<close> in the
  order \<^verbatim>\<open>EdgeIterator\<close> visits them. Nodes and edges are indexed without a bounds
  check in the source; the arrays are total functions here, and \<open>lg_size\<close> is what
  \<^verbatim>\<open>Size()\<close> returns.\<close>

record LinkGraph =
  lg_index :: LinkGraphID
  lg_cargo :: CargoID
  lg_size :: nat
  lg_station :: "NodeID \<Rightarrow> StationID"
  lg_supply :: "NodeID \<Rightarrow> u32"
  lg_edges :: "NodeID \<Rightarrow> NodeID list"
  lg_capacity :: "NodeID \<Rightarrow> NodeID \<Rightarrow> u32"
  lg_last_update :: "NodeID \<Rightarrow> NodeID \<Rightarrow> Date"
  lg_last_unrestricted_update :: "NodeID \<Rightarrow> NodeID \<Rightarrow> Date"

datatype DistributionType = DT_MANUAL | DT_ASYMMETRIC | DT_SYMMETRIC

text \<open>Modelled from the spec: the link graph settings structure is declared outside
  this file; it provides the distribution type per cargo and the recalculation timing
  parameters.\<close>

record LinkGraphSettings =
  recalc_time :: "16 word"
  recalc_not_scaled_by_daylength :: bool
  distribution :: "CargoID \<Rightarrow> DistributionType"

definition GetDistributionType :: "LinkGraphSettings \<Rightarrow> CargoID \<Rightarrow> DistributionType" where
  "GetDistributionType s c = distribution s c"

text \<open>Modelled from the spec: the flow table of a station and cargo maps an origin
  station to a share table of next-hop choices; a share can be marked restricted.
  The table keeps its entries in storage order, one entry per origin.\<close>

record Share =
  share_flow :: nat
  share_via :: StationID
  share_restricted :: bool

record FlowStat =
  fs_origin :: StationID
  fs_shares :: "Share list"

type_synonym FlowStatMap = "FlowStat list"

text \<open>The job: the snapshot, the scheduling data, and the node and edge annotations
  (\<^verbatim>\<open>NodeAnnotation\<close>, \<^verbatim>\<open>EdgeAnnotation\<close>).\<close>

record LinkGraphJob =
  link_graph :: LinkGraph
  settings :: LinkGraphSettings
  join_date_ticks :: i32
  start_date_ticks :: i32
  job_completed :: bool
  abort_job :: bool
  job_group :: "nat option"
  undelivered_supply :: "NodeID \<Rightarrow> u32"
  received_demand :: "NodeID \<Rightarrow> u32"
  node_flows :: "NodeID \<Rightarrow> FlowStatMap"
  node_paths :: "NodeID \<Rightarrow> addr list"
  edge_demand :: "NodeID \<Rightarrow> NodeID \<Rightarrow> u32"
  edge_flow :: "NodeID \<Rightarrow> NodeID \<Rightarrow> u32"
  edge_unsatisfied_demand :: "NodeID \<Rightarrow> NodeID \<Rightarrow> u32"

definition Size :: "LinkGraphJob \<Rightarrow> nat" where
  "Size j = lg_size (link_graph j)"

definition Cargo :: "LinkGraphJob \<Rightarrow> CargoID" where
  "Cargo j = lg_cargo (link_graph j)"

subsection \<open>Path::AddFlow\<close>

text \<open>Modelled from the spec: the accessors of \<^verbatim>\<open>LinkGraphJob::Edge\<close> are defined in the
  header, outside this file. \<^verbatim>\<open>edge.Capacity()\<close> reads the capacity of the snapshot,
  \<^verbatim>\<open>edge.Flow()\<close> reads the flow counter of the edge annotation and
  \<^verbatim>\<open>edge.AddFlow(f)\<close> adds to it.\<close>

definition Edge_Capacity :: "LinkGraphJob \<Rightarrow> NodeID \<Rightarrow> NodeID \<Rightarrow> u32" where
  "Edge_Capacity j a b = lg_capacity (link_graph j) a b"

definition Edge_Flow :: "LinkGraphJob \<Rightarrow> NodeID \<Rightarrow> NodeID \<Rightarrow> u32" where
  "Edge_Flow j a b = edge_flow j a b"

definition Edge_AddFlow :: "NodeID \<Rightarrow> NodeID \<Rightarrow> u32 \<Rightarrow> LinkGraphJob \<Rightarrow> LinkGraphJob" where
  "Edge_AddFlow a b f j = j\<lparr>edge_flow := (edge_flow j)(a := (edge_flow j a)(b := edge_flow j a b + f))\<rparr>"

text \<open>\<^verbatim>\<open>uint usable_cap = edge.Capacity() * max_saturation / 100\<close>: the product wraps
  at 32 bits before the division.\<close>

definition usable_cap :: "LinkGraphJob \<Rightarrow> NodeID \<Rightarrow> NodeID \<Rightarrow> u32 \<Rightarrow> u32" where
  "usable_cap j a b max_saturation = Edge_Capacity j a b * max_saturation div 100"

text \<open>\<^verbatim>\<open>job[n].Paths().push_back(p)\<close>.\<close>

definition Paths_push_back :: "NodeID \<Rightarrow> addr \<Rightarrow> LinkGraphJob \<Rightarrow> LinkGraphJob" where
  "Paths_push_back n p j = j\<lparr>node_paths := (node_paths j)(n := node_paths j n @ [p])\<rparr>"

text \<open>An assignment to a field of the object at \<open>p\<close>.\<close>

definition update_Path :: "addr \<Rightarrow> (Path \<Rightarrow> Path) \<Rightarrow> heap \<Rightarrow> heap" where
  "update_Path p f h = (case h p of None \<Rightarrow> h | Some P \<Rightarrow> h(p \<mapsto> f P))"

text \<open>\<^verbatim>\<open>this->flow += new_flow\<close>.\<close>

definition add_to_flow :: "addr \<Rightarrow> u32 \<Rightarrow> heap \<Rightarrow> heap" where
  "add_to_flow p f h = update_Path p (\<lambda>P. P\<lparr>flow := flow P + f\<rparr>) h"

text \<open>What a leg with a parent does once the parent has accepted \<open>pushed\<close>: the
  registration in the parent node's path list at the first positive flow of the leg,
  \<^verbatim>\<open>edge.AddFlow(new_flow)\<close> on the edge fixed before the recursion, and
  \<^verbatim>\<open>this->flow += new_flow\<close>.\<close>

definition AddFlow_record ::
  "addr \<Rightarrow> NodeID \<Rightarrow> NodeID \<Rightarrow> u32 \<times> heap \<times> LinkGraphJob
     \<Rightarrow> (u32 \<times> heap \<times> LinkGraphJob) option"
where
  "AddFlow_record this a b r =
     (case r of (pushed, h1, job1) \<Rightarrow>
        (case h1 this of
           None \<Rightarrow> None
         | Some T1 \<Rightarrow>
             if flow T1 = 0 \<and> pushed > 0
             then (case parent T1 of
                     None \<Rightarrow> None
                   | Some p1 \<Rightarrow>
                       (case h1 p1 of
                          None \<Rightarrow> None
                        | Some P1 \<Rightarrow>
                            Some (pushed,
                                  add_to_flow this pushed h1,
                                  Edge_AddFlow a b pushed
                                    (Paths_push_back (node P1) this job1))))
             else Some (pushed, add_to_flow this pushed h1, Edge_AddFlow a b pushed job1)))"

text \<open>The recursion follows the parent pointers and need not end (a cyclic chain recurses
  forever); not returning, and following a pointer to no object, is \<open>None\<close>.\<close>

partial_function (option) AddFlow ::
  "addr \<Rightarrow> u32 \<Rightarrow> u32 \<Rightarrow> heap \<Rightarrow> LinkGraphJob \<Rightarrow> (u32 \<times> heap \<times> LinkGraphJob) option"
where
  "AddFlow this new_flow max_saturation h job =
     (case h this of
        None \<Rightarrow> None
      | Some T \<Rightarrow>
          (case parent T of
             None \<Rightarrow> Some (new_flow, add_to_flow this new_flow h, job)
           | Some p \<Rightarrow>
               (case h p of
                  None \<Rightarrow> None
                | Some P \<Rightarrow>
                    if max_saturation \<noteq> UINT_MAX \<and>
                       \<not> (usable_cap job (node P) (node T) max_saturation > Edge_Flow job (node P) (node T))
                    then Some (0, h, job)
                    else
                      Option.bind
                        (AddFlow p
                           (if max_saturation \<noteq> UINT_MAX
                            then min_uint new_flow
                                   (usable_cap job (node P) (node T) max_saturation
                                      - Edge_Flow job (node P) (node T))
                            else new_flow)
                           max_saturation h job)
                        (AddFlow_record this (node P) (node T)))))"

text \<open>The legs above a leg, nearest first, up to the root: \<open>path_chain h p ps\<close> holds
  when following the parent pointers from \<open>p\<close> visits exactly \<open>ps\<close> and ends at a leg
  without parent. \<open>chain_edges\<close> lists the edges \<^verbatim>\<open>job[parent->node][node]\<close> the legs
  of the chain push flow onto.\<close>

fun path_chain :: "heap \<Rightarrow> addr \<Rightarrow> addr list \<Rightarrow> bool" where
  "path_chain h p [] = (case h p of None \<Rightarrow> False | Some P \<Rightarrow> parent P = None)"
| "path_chain h p (q # qs) =
     (case h p of None \<Rightarrow> False | Some P \<Rightarrow> parent P = Some q \<and> path_chain h q qs)"

definition node_of :: "heap \<Rightarrow> addr \<Rightarrow> NodeID" where
  "node_of h p = (case h p of None \<Rightarrow> INVALID_NODE | Some P \<Rightarrow> node P)"

definition flow_of :: "heap \<Rightarrow> addr \<Rightarrow> u32" where
  "flow_of h p = (case h p of None \<Rightarrow> 0 | Some P \<Rightarrow> flow P)"

fun chain_edges :: "heap \<Rightarrow> addr \<Rightarrow> addr list \<Rightarrow> (NodeID \<times> NodeID) list" where
  "chain_edges h p [] = []"
| "chain_edges h p (q # qs) = (node_of h q, node_of h p) # chain_edges h q qs"

text \<open>A sequence of calls \<^verbatim>\<open>path->AddFlow(f, job, max_saturation)\<close>, each given by its
  leg and its amount, with one saturation for all; the returned amounts are dropped.\<close>

fun AddFlow_calls ::
  "(addr \<times> u32) list \<Rightarrow> u32 \<Rightarrow> heap \<Rightarrow> LinkGraphJob \<Rightarrow> (heap \<times> LinkGraphJob) option"
where
  "AddFlow_calls [] max_saturation h job = Some (h, job)"
| "AddFlow_calls (c # cs) max_saturation h job =
     (case AddFlow (fst c) (snd c) max_saturation h job of
        None \<Rightarrow> None
      | Some r \<Rightarrow> AddFlow_calls cs max_saturation (fst (snd r)) (snd (snd r)))"

text \<open>Every edge carries at most its usable capacity.\<close>

definition within_usable :: "LinkGraphJob \<Rightarrow> u32 \<Rightarrow> bool" where
  "within_usable job max_saturation =
     (\<forall>a b. Edge_Flow job a b \<le> usable_cap job a b max_saturation)"

text \<open>The store after \<open>r\<close> has been added to the flow of every leg in \<open>S\<close>.\<close>

definition flows_added :: "addr set \<Rightarrow> u32 \<Rightarrow> heap \<Rightarrow> heap" where
  "flows_added S r h =
     (\<lambda>x. case h x of None \<Rightarrow> None
          | Some X \<Rightarrow> Some (if x \<in> S then X\<lparr>flow := flow X + r\<rparr> else X))"

text \<open>The flow of an edge after a call, if the call returns.\<close>

definition flow_after ::
  "NodeID \<Rightarrow> NodeID \<Rightarrow> (u32 \<times> heap \<times> LinkGraphJob) option \<Rightarrow> u32 option" where
  "flow_after a b r = map_option (\<lambda>x. Edge_Flow (snd (snd x)) a b) r"

subsection \<open>Path::Fork\<close>

text \<open>Modelled from the spec: \<^verbatim>\<open>Path::Detach\<close> is defined in the header, outside this
  file; a leg is detached from its old parent, decrementing that parent's child count.
  A leg without parent is left as it is.\<close>

definition Detach :: "addr \<Rightarrow> heap \<Rightarrow> heap option" where
  "Detach this h =
     (case h this of
        None \<Rightarrow> None
      | Some T \<Rightarrow>
          (case parent T of
             None \<Rightarrow> Some h
           | Some p \<Rightarrow>
               (case h p of
                  None \<Rightarrow> None
                | Some P \<Rightarrow>
                    Some (update_Path this (\<lambda>x. x\<lparr>parent := None\<rparr>)
                           (update_Path p (\<lambda>x. x\<lparr>num_children := num_children x - 1\<rparr>) h)))))"

text \<open>Modelled from the spec: \<^verbatim>\<open>Path::SetParent\<close>, of the header as well, reattaches
  the leg.\<close>

definition SetParent :: "addr \<Rightarrow> addr \<Rightarrow> heap \<Rightarrow> heap" where
  "SetParent this base h = update_Path this (\<lambda>x. x\<lparr>parent := Some base\<rparr>) h"

text \<open>\<^verbatim>\<open>Path::Fork\<close>. Each assignment reads the store as the assignments before it
  left it (\<open>this\<close> and \<open>base\<close> may be one object). A failed
  \<^verbatim>\<open>assert(this->distance > 0)\<close>, and a pointer to no object, is \<open>None\<close>.
  \<open>the\<close> is applied to \<open>h base\<close> and \<open>h this\<close> only after both are known to be
  objects, and no step removes an object.\<close>

definition Fork :: "addr \<Rightarrow> addr \<Rightarrow> u32 \<Rightarrow> i32 \<Rightarrow> u32 \<Rightarrow> heap \<Rightarrow> heap option" where
  "Fork this base cap free_cap dist h =
     (if h this = None \<or> h base = None then None
      else
        let h1 = update_Path this (\<lambda>x. x\<lparr>capacity := min_uint (capacity (the (h base))) cap\<rparr>) h;
            h2 = update_Path this
                   (\<lambda>x. x\<lparr>free_capacity := min_int (free_capacity (the (h1 base))) free_cap\<rparr>) h1;
            h3 = update_Path this (\<lambda>x. x\<lparr>distance := distance (the (h2 base)) + dist\<rparr>) h2
        in if \<not> (distance (the (h3 this)) > 0) then None
           else
             Option.bind
               (if parent (the (h3 this)) \<noteq> Some base
                then map_option
                       (\<lambda>h4. update_Path base (\<lambda>x. x\<lparr>num_children := num_children x + 1\<rparr>)
                                (SetParent this base h4))
                       (Detach this h3)
                else Some h3)
               (\<lambda>h5. Some (update_Path this (\<lambda>x. x\<lparr>origin := origin (the (h5 base))\<rparr>) h5)))"




definition children_of :: "heap \<Rightarrow> addr \<Rightarrow> u32" where
  "children_of h p = (case h p of None \<Rightarrow> 0 | Some P \<Rightarrow> num_children P)"

definition distance_of :: "heap \<Rightarrow> addr \<Rightarrow> u32" where
  "distance_of h p = (case h p of None \<Rightarrow> 0 | Some P \<Rightarrow> distance P)"

definition parent_of :: "heap \<Rightarrow> addr \<Rightarrow> addr option" where
  "parent_of h p = (case h p of None \<Rightarrow> None | Some P \<Rightarrow> parent P)"

text \<open>The store after the three assignments of \<^verbatim>\<open>Fork\<close> to capacity, free capacity
  and distance.\<close>

definition Fork_fields :: "addr \<Rightarrow> addr \<Rightarrow> u32 \<Rightarrow> i32 \<Rightarrow> u32 \<Rightarrow> heap \<Rightarrow> heap" where
  "Fork_fields this base cap free_cap dist h =
     (let h1 = update_Path this (\<lambda>x. x\<lparr>capacity := min_uint (capacity (the (h base))) cap\<rparr>) h;
          h2 = update_Path this
                 (\<lambda>x. x\<lparr>free_capacity := min_int (free_capacity (the (h1 base))) free_cap\<rparr>) h1
      in update_Path this (\<lambda>x. x\<lparr>distance := distance (the (h2 base)) + dist\<rparr>) h2)"

text \<open>The fields that order a chain.\<close>

definition geom :: "heap \<Rightarrow> addr \<Rightarrow> (u32 \<times> u32 \<times> i32 \<times> addr option) option" where
  "geom h q = (case h q of None \<Rightarrow> None
               | Some P \<Rightarrow> Some (distance P, capacity P, free_capacity P, parent P))"

text \<open>Leg \<open>b\<close> is a child of leg \<open>a\<close> with capacity and free capacity not greater
  than those of \<open>a\<close> and, when \<open>strict\<close> is set, with a strictly greater distance.
  \<open>chain_ordered\<close> says so of every leg of a chain listed from the root to the leaf.\<close>

definition leg_below :: "bool \<Rightarrow> heap \<Rightarrow> addr \<Rightarrow> addr \<Rightarrow> bool" where
  "leg_below strict h a b =
     (case (h a, h b) of
         (Some A, Some B) \<Rightarrow>
            parent B = Some a \<and> (strict \<longrightarrow> distance A < distance B) \<and> capacity B \<le> capacity A
            \<and> sint (free_capacity B) \<le> sint (free_capacity A)
       | _ \<Rightarrow> False)"

fun chain_ordered :: "bool \<Rightarrow> heap \<Rightarrow> addr list \<Rightarrow> bool" where
  "chain_ordered strict h (a # b # rest) =
     (leg_below strict h a b \<and> chain_ordered strict h (b # rest))"
| "chain_ordered strict h _ = True"


subsection \<open>The job: construction, Init, EraseFlows, JoinThread\<close>

text \<open>The globals the constructor samples: \<^verbatim>\<open>_settings_game.linkgraph\<close>,
  \<^verbatim>\<open>_settings_game.economy.day_length_factor\<close>, \<^verbatim>\<open>_date\<close> and
  \<^verbatim>\<open>_date_fract\<close>. Their types are declared in headers outside this file: the
  recalculation time is a 16-bit and the day length factor an 8-bit unsigned number,
  \<^verbatim>\<open>Date\<close> and \<^verbatim>\<open>DateTicks\<close> are 32-bit signed, \<^verbatim>\<open>DateFract\<close> is 16-bit
  unsigned.\<close>

record Game =
  settings_linkgraph :: LinkGraphSettings
  day_length_factor :: "8 word"
  date :: i32
  date_fract :: "16 word"

text \<open>\<^verbatim>\<open>DAY_TICKS\<close> is a constant of the date header, outside this file.\<close>

definition DAY_TICKS :: i32 where
  "DAY_TICKS = 74"

text \<open>The division of \<^verbatim>\<open>int\<close>: the quotient is truncated towards zero.\<close>

definition div_int :: "i32 \<Rightarrow> i32 \<Rightarrow> i32" where
  "div_int a b = word_of_int (sgn (sint a) * sgn (sint b) * (\<bar>sint a\<bar> div \<bar>sint b\<bar>))"

text \<open>\<^verbatim>\<open>GetLinkGraphJobJoinDateTicks\<close>. The product of the recalculation time and
  \<^verbatim>\<open>DAY_TICKS\<close> fits an \<^verbatim>\<open>int\<close>; multiplied by the \<^verbatim>\<open>uint\<close> multiplier it is a
  32-bit unsigned product and wraps; stored in a \<^verbatim>\<open>DateTicks\<close> it keeps its bits. The
  division by the day length factor is the signed one, and a division by zero is
  \<open>None\<close>. The additions are 32-bit (a signed overflow, undefined in C++, wraps
  here).\<close>

definition GetLinkGraphJobJoinDateTicks :: "Game \<Rightarrow> u32 \<Rightarrow> i32 option" where
  "GetLinkGraphJobJoinDateTicks g duration_multiplier =
     (let ticks = ucast (recalc_time (settings_linkgraph g)) * DAY_TICKS * duration_multiplier
      in if recalc_not_scaled_by_daylength (settings_linkgraph g)
         then (if day_length_factor g = 0 then None
               else Some (div_int ticks (ucast (day_length_factor g))
                          + date g * DAY_TICKS + ucast (date_fract g)))
         else Some (ticks + date g * DAY_TICKS + ucast (date_fract g)))"

text \<open>\<^verbatim>\<open>LinkGraphJob::LinkGraphJob\<close>: the graph is copied with its index, the settings
  are copied from the global ones. The annotation arrays are empty until \<^verbatim>\<open>Init\<close>.\<close>

definition new_LinkGraphJob :: "Game \<Rightarrow> LinkGraph \<Rightarrow> u32 \<Rightarrow> LinkGraphJob option" where
  "new_LinkGraphJob g orig duration_multiplier =
     (case GetLinkGraphJobJoinDateTicks g duration_multiplier of
        None \<Rightarrow> None
      | Some join \<Rightarrow>
          Some \<lparr> link_graph = orig,
                 settings = settings_linkgraph g,
                 join_date_ticks = join,
                 start_date_ticks = date g * DAY_TICKS + ucast (date_fract g),
                 job_completed = False,
                 abort_job = False,
                 job_group = None,
                 undelivered_supply = (\<lambda>_. 0),
                 received_demand = (\<lambda>_. 0),
                 node_flows = (\<lambda>_. []),
                 node_paths = (\<lambda>_. []),
                 edge_demand = (\<lambda>_ _. 0),
                 edge_flow = (\<lambda>_ _. 0),
                 edge_unsatisfied_demand = (\<lambda>_ _. 0) \<rparr>)"

text \<open>\<^verbatim>\<open>LinkGraphJob::Init\<close> with \<^verbatim>\<open>NodeAnnotation::Init\<close> and
  \<^verbatim>\<open>EdgeAnnotation::Init\<close>: the supply of every node is copied, every counter is 0.\<close>

definition Init :: "LinkGraphJob \<Rightarrow> LinkGraphJob" where
  "Init j = j\<lparr> undelivered_supply := (\<lambda>i. if i < Size j then lg_supply (link_graph j) i
                                            else undelivered_supply j i),
               received_demand := (\<lambda>i. if i < Size j then 0 else received_demand j i),
               edge_demand := (\<lambda>a b. if a < Size j \<and> b < Size j then 0 else edge_demand j a b),
               edge_flow := (\<lambda>a b. if a < Size j \<and> b < Size j then 0 else edge_flow j a b),
               edge_unsatisfied_demand :=
                 (\<lambda>a b. if a < Size j \<and> b < Size j then 0 else edge_unsatisfied_demand j a b) \<rparr>"

text \<open>Modelled from the spec: the flow table is defined outside this file; it supports
  lookup by origin, insertion, erasure and a re-sort into its order. \<^verbatim>\<open>find\<close>,
  \<^verbatim>\<open>erase\<close> and \<^verbatim>\<open>insert\<close> are those of a container with one entry per key
  (an insertion under a key already present changes nothing); \<^verbatim>\<open>SortStorage\<close> orders
  the storage by origin.\<close>

definition FlowStatMap_find :: "FlowStatMap \<Rightarrow> StationID \<Rightarrow> FlowStat option" where
  "FlowStatMap_find m origin_id = find (\<lambda>f. fs_origin f = origin_id) m"

definition FlowStatMap_erase :: "StationID \<Rightarrow> FlowStatMap \<Rightarrow> FlowStatMap" where
  "FlowStatMap_erase origin_id m = filter (\<lambda>f. fs_origin f \<noteq> origin_id) m"

definition FlowStatMap_insert :: "FlowStat \<Rightarrow> FlowStatMap \<Rightarrow> FlowStatMap" where
  "FlowStatMap_insert f m = (if fs_origin f \<in> fs_origin ` set m then m else m @ [f])"

definition SortStorage :: "FlowStatMap \<Rightarrow> FlowStatMap" where
  "SortStorage m = sort_key fs_origin m"

definition origins :: "FlowStatMap \<Rightarrow> StationID set" where
  "origins m = fs_origin ` set m"

text \<open>Modelled from the spec: \<^verbatim>\<open>FlowStat::SwapShares\<close> is defined outside this file; the
  new shares are swapped in. As seen from \<open>it\<close>, \<^verbatim>\<open>it->SwapShares(other)\<close> keeps the
  origin of \<open>it\<close> and leaves it with the shares of the other.\<close>

definition SwapShares :: "FlowStat \<Rightarrow> FlowStat \<Rightarrow> FlowStat" where
  "SwapShares it other = it\<lparr>fs_shares := fs_shares other\<rparr>"

text \<open>Modelled from the spec: \<^verbatim>\<open>FlowStatMap::DeleteFlows\<close> is defined outside this file;
  it deletes all flow shares whose destination is the given station. What it returns
  is read off the comment at its call: the source stations that have been deleted from
  the flows, which are the origins of the entries left without a share; these entries
  are removed. The stack returned is a list, the first pushed first.\<close>

fun DeleteFlows :: "StationID \<Rightarrow> FlowStatMap \<Rightarrow> StationID list \<times> FlowStatMap" where
  "DeleteFlows via [] = ([], [])"
| "DeleteFlows via (f # m) =
     (let sh = filter (\<lambda>s. share_via s \<noteq> via) (fs_shares f);
          r = DeleteFlows via m
      in if sh = [] then (fs_origin f # fst r, snd r)
         else (fst r, f\<lparr>fs_shares := sh\<rparr> # snd r))"

text \<open>Modelled from the spec: \<^verbatim>\<open>FlowStatMap::RestrictFlows\<close> is defined outside this
  file; the shares to the given station are marked restricted, none is deleted.\<close>

definition RestrictFlows :: "StationID \<Rightarrow> FlowStatMap \<Rightarrow> FlowStatMap" where
  "RestrictFlows via m =
     map (\<lambda>f. f\<lparr>fs_shares := map (\<lambda>s. if share_via s = via then s\<lparr>share_restricted := True\<rparr> else s)
                                 (fs_shares f)\<rparr>) m"

text \<open>\<^verbatim>\<open>LinkGraphJob::EraseFlows\<close>: the loop over the node ids from \<open>node_id\<close> on.\<close>

function EraseFlows_loop :: "NodeID \<Rightarrow> NodeID \<Rightarrow> LinkGraphJob \<Rightarrow> LinkGraphJob" where
  "EraseFlows_loop from_id node_id j =
     (if node_id < Size j
      then EraseFlows_loop from_id (Suc node_id)
             (j\<lparr>node_flows := (node_flows j)(node_id := FlowStatMap_erase from_id (node_flows j node_id))\<rparr>)
      else j)"
  by pat_completeness auto
termination
  by (relation "measure (\<lambda>(from_id, node_id, j). Size j - node_id)") (auto simp: Size_def)

definition EraseFlows :: "NodeID \<Rightarrow> LinkGraphJob \<Rightarrow> LinkGraphJob" where
  "EraseFlows from_id j = EraseFlows_loop from_id 0 j"

text \<open>\<^verbatim>\<open>LinkGraphJob::JoinThread\<close>: the group, if any, is joined and released.\<close>

definition JoinThread :: "LinkGraphJob \<Rightarrow> LinkGraphJob" where
  "JoinThread j = (case job_group j of None \<Rightarrow> j | Some grp \<Rightarrow> j\<lparr>job_group := None\<rparr>)"

subsection \<open>LinkGraphJob::FinaliseJob\<close>

text \<open>Modelled from the spec: stations, goods entries and the pools are declared outside
  this file. The live world is the station pool (a lookup by id that may find no station)
  with the goods entry of every cargo, the link graph pool, and the calls made to the
  cargo and window subsystems (\<^verbatim>\<open>RerouteCargo\<close>, \<^verbatim>\<open>InvalidateWindowData\<close>), in
  order.\<close>

record GoodsEntry =
  ge_link_graph :: LinkGraphID
  ge_node :: NodeID
  ge_flows :: FlowStatMap

record Station =
  goods :: "CargoID \<Rightarrow> GoodsEntry"

datatype Event =
    RerouteCargo StationID CargoID StationID StationID
  | InvalidateWindowData StationID CargoID

record World =
  stations :: "StationID \<rightharpoonup> Station"
  link_graphs :: "LinkGraphID \<rightharpoonup> LinkGraph"
  events :: "Event list"

text \<open>The test of lines 129 to 131 on the edge from \<open>node_id\<close> to \<open>to_node\<close>: the
  destination station is gone, or belongs to another graph or node, or the live edge was
  never updated.\<close>

definition edge_removed :: "World \<Rightarrow> LinkGraphJob \<Rightarrow> LinkGraph \<Rightarrow> NodeID \<Rightarrow> NodeID \<Rightarrow> bool" where
  "edge_removed w job lg node_id to_node =
     (case stations w (lg_station (link_graph job) to_node) of
        None \<Rightarrow> True
      | Some st2 \<Rightarrow>
          ge_link_graph (goods st2 (Cargo job)) \<noteq> lg_index (link_graph job)
          \<or> ge_node (goods st2 (Cargo job)) \<noteq> to_node
          \<or> lg_last_update lg node_id to_node = INVALID_DATE)"

text \<open>\<^verbatim>\<open>while (!erased.IsEmpty()) ge.flows.erase(erased.Pop())\<close>; the top of the stack
  is the last element of the list.\<close>

fun erase_popped :: "StationID list \<Rightarrow> FlowStatMap \<Rightarrow> FlowStatMap" where
  "erase_popped erased m =
     (if erased = [] then m
      else erase_popped (butlast erased) (FlowStatMap_erase (last erased) m))"

text \<open>The loop over the outgoing edges of the node (lines 125 to 142), on the pair of the
  node's computed flows and the live flows of the station.\<close>

primrec FinaliseJob_edges ::
  "World \<Rightarrow> LinkGraphJob \<Rightarrow> LinkGraph \<Rightarrow> NodeID \<Rightarrow> NodeID list
     \<Rightarrow> FlowStatMap \<times> FlowStatMap \<Rightarrow> FlowStatMap \<times> FlowStatMap"
where
  "FinaliseJob_edges w job lg node_id [] s = s"
| "FinaliseJob_edges w job lg node_id (t # its) s =
     (if Edge_Flow job node_id t = 0 then FinaliseJob_edges w job lg node_id its s
      else if edge_removed w job lg node_id t
      then FinaliseJob_edges w job lg node_id its
             (snd (DeleteFlows (lg_station (link_graph job) t) (fst s)),
              erase_popped (fst (DeleteFlows (lg_station (link_graph job) t) (fst s))) (snd s))
      else if lg_last_unrestricted_update lg node_id t = INVALID_DATE
      then FinaliseJob_edges w job lg node_id its
             (RestrictFlows (lg_station (link_graph job) t) (fst s), snd s)
      else FinaliseJob_edges w job lg node_id its s)"

text \<open>The merge loop (lines 148 to 171) over the live entries still to visit, against the
  computed flows. \<^verbatim>\<open>FlowStat::Invalidate\<close> is defined outside this file and is a
  parameter: it returns whether the entry should be erased, and the entry as it leaves
  it. The result is the live entries kept, the computed flows not consumed, and the
  \<^verbatim>\<open>RerouteCargo\<close> calls made. \<open>g\<close> is the global link graph settings at the time of
  the call.\<close>

primrec FinaliseJob_merge ::
  "(FlowStat \<Rightarrow> bool \<times> FlowStat) \<Rightarrow> LinkGraphSettings \<Rightarrow> CargoID \<Rightarrow> StationID
     \<Rightarrow> FlowStatMap \<Rightarrow> FlowStatMap \<Rightarrow> FlowStatMap \<times> FlowStatMap \<times> Event list"
where
  "FinaliseJob_merge Invalidate g c st [] flows = ([], flows, [])"
| "FinaliseJob_merge Invalidate g c st (it # rest) flows =
     (case FlowStatMap_find flows (fs_origin it) of
        None \<Rightarrow>
          (let inv = (if GetDistributionType g c \<noteq> DT_MANUAL then Invalidate it else (True, it));
               r = FinaliseJob_merge Invalidate g c st rest flows
           in if fst inv
              then (fst r, fst (snd r),
                    map (\<lambda>s. RerouteCargo st c (share_via s) st) (fs_shares (snd inv)) @ snd (snd r))
              else (snd inv # fst r, snd r))
      | Some new_it \<Rightarrow>
          (let r = FinaliseJob_merge Invalidate g c st rest (FlowStatMap_erase (fs_origin it) flows)
           in (SwapShares it new_it # fst r, snd r)))"

text \<open>Lines 172 to 174: the computed flows left are inserted into the live table.\<close>

fun insert_flows :: "FlowStatMap \<Rightarrow> FlowStatMap \<Rightarrow> FlowStatMap" where
  "insert_flows [] m = m"
| "insert_flows (f # flows) m = insert_flows flows (FlowStatMap_insert f m)"

text \<open>The whole merge of one station: merge loop, insertion, \<^verbatim>\<open>SortStorage\<close>.\<close>

definition merge_station ::
  "(FlowStat \<Rightarrow> bool \<times> FlowStat) \<Rightarrow> LinkGraphSettings \<Rightarrow> CargoID \<Rightarrow> StationID
     \<Rightarrow> FlowStatMap \<Rightarrow> FlowStatMap \<Rightarrow> FlowStatMap"
where
  "merge_station Invalidate g c st live flows =
     (let r = FinaliseJob_merge Invalidate g c st live flows
      in SortStorage (insert_flows (fst (snd r)) (fst r)))"

text \<open>The body of the loop over the nodes (lines 105 to 176). \<^verbatim>\<open>LinkGraph::Get\<close> is
  called on the index checked at the start of \<^verbatim>\<open>FinaliseJob\<close>, so the branch of a
  missing graph is never taken.\<close>

definition FinaliseJob_node ::
  "(FlowStat \<Rightarrow> bool \<times> FlowStat) \<Rightarrow> LinkGraphSettings \<Rightarrow> NodeID
     \<Rightarrow> LinkGraphJob \<times> World \<Rightarrow> LinkGraphJob \<times> World"
where
  "FinaliseJob_node Invalidate g node_id s =
     (let job = fst s; w = snd s; c = Cargo job; sid = lg_station (link_graph job) node_id
      in case stations w sid of
           None \<Rightarrow> (EraseFlows node_id job, w)
         | Some st \<Rightarrow>
             if ge_link_graph (goods st c) \<noteq> lg_index (link_graph job) \<or> ge_node (goods st c) \<noteq> node_id
             then (EraseFlows node_id job, w)
             else
               (case link_graphs w (ge_link_graph (goods st c)) of
                  None \<Rightarrow> (job, w)
                | Some lg \<Rightarrow>
                    (let e = FinaliseJob_edges w job lg node_id (lg_edges (link_graph job) node_id)
                               (node_flows job node_id, ge_flows (goods st c));
                         r = FinaliseJob_merge Invalidate g c sid (snd e) (fst e);
                         live = SortStorage (insert_flows (fst (snd r)) (fst r))
                     in (job\<lparr>node_flows := (node_flows job)(node_id := fst (snd r))\<rparr>,
                         w\<lparr>stations := (stations w)(sid \<mapsto>
                              st\<lparr>goods := (goods st)(c := (goods st c)\<lparr>ge_flows := live\<rparr>)\<rparr>),
                           events := events w @ snd (snd r) @ [InvalidateWindowData sid c]\<rparr>))))"

function FinaliseJob_nodes ::
  "(FlowStat \<Rightarrow> bool \<times> FlowStat) \<Rightarrow> LinkGraphSettings \<Rightarrow> nat \<Rightarrow> NodeID
     \<Rightarrow> LinkGraphJob \<times> World \<Rightarrow> LinkGraphJob \<times> World"
where
  "FinaliseJob_nodes Invalidate g sz node_id s =
     (if node_id < sz
      then FinaliseJob_nodes Invalidate g sz (Suc node_id) (FinaliseJob_node Invalidate g node_id s)
      else s)"
  by pat_completeness auto
termination
  by (relation "measure (\<lambda>(Invalidate, g, sz, node_id, s). sz - node_id)") auto

text \<open>\<^verbatim>\<open>LinkGraphJob::FinaliseJob\<close>, run with the global link graph settings \<open>g\<close> of the
  time of the call.\<close>

definition FinaliseJob ::
  "(FlowStat \<Rightarrow> bool \<times> FlowStat) \<Rightarrow> LinkGraphSettings \<Rightarrow> LinkGraphJob \<Rightarrow> World
     \<Rightarrow> LinkGraphJob \<times> World"
where
  "FinaliseJob Invalidate g job w =
     (let job1 = JoinThread job
      in if link_graphs w (lg_index (link_graph job1)) = None then (job1, w)
         else FinaliseJob_nodes Invalidate g (Size job1) 0 (job1, w))"

text \<open>What the merge loop does to a live entry whose origin is missing from the computed
  flows: with manual distribution it is erased as it is, otherwise \<^verbatim>\<open>Invalidate\<close>
  decides. \<open>merged_entry\<close> is the entry a live entry becomes, \<open>entry_stays\<close> whether it
  stays in the live table, and \<open>live_kept\<close> lists the live entries that stay without a
  computed entry of their origin.\<close>

definition invalidated ::
  "(FlowStat \<Rightarrow> bool \<times> FlowStat) \<Rightarrow> LinkGraphSettings \<Rightarrow> CargoID \<Rightarrow> FlowStat \<Rightarrow> bool \<times> FlowStat" where
  "invalidated Invalidate g c it =
     (if GetDistributionType g c \<noteq> DT_MANUAL then Invalidate it else (True, it))"

definition merged_entry ::
  "(FlowStat \<Rightarrow> bool \<times> FlowStat) \<Rightarrow> LinkGraphSettings \<Rightarrow> CargoID \<Rightarrow> FlowStatMap \<Rightarrow> FlowStat \<Rightarrow> FlowStat" where
  "merged_entry Inv g c flows it =
     (case FlowStatMap_find flows (fs_origin it) of
        Some n \<Rightarrow> n | None \<Rightarrow> snd (invalidated Inv g c it))"

definition entry_stays ::
  "(FlowStat \<Rightarrow> bool \<times> FlowStat) \<Rightarrow> LinkGraphSettings \<Rightarrow> CargoID \<Rightarrow> FlowStatMap \<Rightarrow> FlowStat \<Rightarrow> bool" where
  "entry_stays Inv g c flows it =
     (fs_origin it \<in> origins flows \<or> \<not> fst (invalidated Inv g c it))"

definition live_kept ::
  "(FlowStat \<Rightarrow> bool \<times> FlowStat) \<Rightarrow> LinkGraphSettings \<Rightarrow> CargoID
     \<Rightarrow> FlowStatMap \<Rightarrow> FlowStatMap \<Rightarrow> FlowStatMap" where
  "live_kept Invalidate g c live flows =
     map (\<lambda>it. snd (Invalidate it))
       (filter (\<lambda>it. fs_origin it \<notin> origins flows \<and> GetDistributionType g c \<noteq> DT_MANUAL
                     \<and> \<not> fst (Invalidate it)) live)"

text \<open>Some entry of the table has a share whose next hop is the station.\<close>

definition has_share_to :: "StationID \<Rightarrow> FlowStatMap \<Rightarrow> bool" where
  "has_share_to via m = list_ex (\<lambda>f. list_ex (\<lambda>s. share_via s = via) (fs_shares f)) m"

text \<open>The shares of a table, each with the origin of its entry, its next hop and its
  amount; the restricted mark of a share is left out.\<close>

definition shares_of :: "FlowStatMap \<Rightarrow> (StationID \<times> StationID \<times> nat) set" where
  "shares_of m =
     set (concat (map (\<lambda>f. map (\<lambda>s. (fs_origin f, share_via s, share_flow s)) (fs_shares f)) m))"

text \<open>The destination stations of the edges of a node that carry flow and are removed.\<close>

definition removed_stations ::
  "World \<Rightarrow> LinkGraphJob \<Rightarrow> LinkGraph \<Rightarrow> NodeID \<Rightarrow> NodeID list \<Rightarrow> StationID list" where
  "removed_stations w job lg node_id its =
     map (lg_station (link_graph job))
       (filter (\<lambda>t. Edge_Flow job node_id t \<noteq> 0 \<and> edge_removed w job lg node_id t) its)"

text \<open>The live flows of a station and cargo.\<close>

definition live_flows :: "World \<Rightarrow> StationID \<Rightarrow> CargoID \<Rightarrow> FlowStatMap" where
  "live_flows w sid c = (case stations w sid of None \<Rightarrow> [] | Some st \<Rightarrow> ge_flows (goods st c))"

subsection \<open>Sample data\<close>

text \<open>A graph of two nodes, stations 0 and 1, with an edge of capacity 10 each way, and
  a job on it with all annotations zero.\<close>

definition ex_settings :: LinkGraphSettings where
  "ex_settings = \<lparr> recalc_time = 16, recalc_not_scaled_by_daylength = False,
                   distribution = (\<lambda>_. DT_ASYMMETRIC) \<rparr>"

definition ex_graph :: LinkGraph where
  "ex_graph = \<lparr> lg_index = 0, lg_cargo = 0, lg_size = 2,
                lg_station = (\<lambda>n. n), lg_supply = (\<lambda>_. 0),
                lg_edges = (\<lambda>n. if n = 0 then [1] else if n = 1 then [0] else []),
                lg_capacity = (\<lambda>_ _. 10),
                lg_last_update = (\<lambda>_ _. 0),
                lg_last_unrestricted_update = (\<lambda>_ _. 0) \<rparr>"

definition ex_job :: LinkGraphJob where
  "ex_job = \<lparr> link_graph = ex_graph, settings = ex_settings,
              join_date_ticks = 0, start_date_ticks = 0,
              job_completed = False, abort_job = False, job_group = None,
              undelivered_supply = (\<lambda>_. 0), received_demand = (\<lambda>_. 0),
              node_flows = (\<lambda>_. []), node_paths = (\<lambda>_. []),
              edge_demand = (\<lambda>_ _. 0), edge_flow = (\<lambda>_ _. 0),
              edge_unsatisfied_demand = (\<lambda>_ _. 0) \<rparr>"

text \<open>A root leg at node 0 with a child leg at node 1; and a chain of four legs through
  the nodes 0, 1, 0, 1, which crosses the edge from 0 to 1 twice.\<close>

definition ex_heap :: heap where
  "ex_heap = [0 \<mapsto> new_Path 0 True,
              1 \<mapsto> (new_Path 1 False)\<lparr>parent := Some 0\<rparr>]"

definition cx_heap :: heap where
  "cx_heap = [0 \<mapsto> new_Path 0 True,
              1 \<mapsto> (new_Path 1 False)\<lparr>parent := Some 0\<rparr>,
              2 \<mapsto> (new_Path 0 False)\<lparr>parent := Some 1\<rparr>,
              3 \<mapsto> (new_Path 1 False)\<lparr>parent := Some 2\<rparr>]"


definition fresh_heap :: heap where
  "fresh_heap = [0 \<mapsto> new_Path 0 True, 1 \<mapsto> new_Path 1 True, 2 \<mapsto> new_Path 2 False]"

text \<open>The sample job with 5 units already on the edge from 0 to 1.\<close>

definition ex_job_loaded :: LinkGraphJob where
  "ex_job_loaded = ex_job\<lparr>edge_flow := (\<lambda>a b. if a = 0 \<and> b = 1 then 5 else 0)\<rparr>"

text \<open>A share, a policy for \<^verbatim>\<open>Invalidate\<close> that keeps every entry unchanged, settings
  with manual distribution, a world with station 0 on node 0 of graph 0 holding one live
  flow entry of origin 5, the same world without its link graph, and a job with flows.\<close>

definition share_to :: "StationID \<Rightarrow> Share" where
  "share_to via = \<lparr> share_flow = 1, share_via = via, share_restricted = False \<rparr>"

definition Invalidate_keep :: "FlowStat \<Rightarrow> bool \<times> FlowStat" where
  "Invalidate_keep f = (False, f)"

definition manual_settings :: LinkGraphSettings where
  "manual_settings = ex_settings\<lparr>distribution := (\<lambda>_. DT_MANUAL)\<rparr>"

definition ex_world :: World where
  "ex_world = \<lparr> stations = [0 \<mapsto> \<lparr> goods = (\<lambda>_. \<lparr> ge_link_graph = 0, ge_node = 0,
                                    ge_flows = [\<lparr> fs_origin = 5, fs_shares = [share_to 1] \<rparr>] \<rparr>) \<rparr>],
                link_graphs = [0 \<mapsto> ex_graph],
                events = [] \<rparr>"

definition gone_world :: World where
  "gone_world = ex_world\<lparr>link_graphs := Map.empty\<rparr>"

definition ex_job_flows :: LinkGraphJob where
  "ex_job_flows = ex_job\<lparr>node_flows :=
      (\<lambda>n. if n = 0 then [\<lparr> fs_origin = 1, fs_shares = [share_to 1] \<rparr>,
                           \<lparr> fs_origin = 2, fs_shares = [share_to 1] \<rparr>]
            else [\<lparr> fs_origin = 2, fs_shares = [share_to 0] \<rparr>])\<rparr>"

text \<open>A game at date 0 with a recalculation time of 64000 days, not scaled.\<close>

definition long_game :: Game where
  "long_game = \<lparr> settings_linkgraph = ex_settings\<lparr>recalc_time := 64000\<rparr>,
                  day_length_factor = 1, date = 0, date_fract = 0 \<rparr>"

text \<open>Settings that differ from the sample ones in every field, with no cargo on manual
  distribution.\<close>

definition symmetric_settings :: LinkGraphSettings where
  "symmetric_settings = \<lparr> recalc_time = 4, recalc_not_scaled_by_daylength = True,
                           distribution = (\<lambda>_. DT_SYMMETRIC) \<rparr>"

section \<open>Properties\<close>

declare EraseFlows_loop.simps [simp del]
declare FinaliseJob_nodes.simps [simp del]
declare erase_popped.simps [simp del]

subsection \<open>Parent chains\<close>

lemma path_chain_obj: "path_chain h p ps \<Longrightarrow> h p \<noteq> None"
  by (cases ps) (auto split: option.splits)

lemma path_chain_unique: "path_chain h p ps \<Longrightarrow> path_chain h p ps' \<Longrightarrow> ps = ps'"
proof (induction ps arbitrary: p ps')
  case Nil
  then show ?case by (cases ps') (auto split: option.splits)
next
  case (Cons q qs)
  then show ?case by (cases ps') (auto split: option.splits)
qed

lemma path_chain_suffix:
  "path_chain h p ps \<Longrightarrow> q \<in> set ps \<Longrightarrow> \<exists>qs. path_chain h q qs \<and> length qs < length ps"
proof (induction ps arbitrary: p)
  case Nil
  then show ?case by simp
next
  case (Cons a ps)
  from Cons.prems(1) have a: "path_chain h a ps" by (auto split: option.splits)
  show ?case
  proof (cases "q = a")
    case True
    with a show ?thesis by auto
  next
    case False
    with Cons.prems(2) have "q \<in> set ps" by simp
    from Cons.IH [OF a this] show ?thesis by auto
  qed
qed

lemma path_chain_notin: "path_chain h p ps \<Longrightarrow> p \<notin> set ps"
proof
  assume c: "path_chain h p ps" and "p \<in> set ps"
  from path_chain_suffix [OF this] obtain qs where "path_chain h p qs" "length qs < length ps"
    by blast
  with c path_chain_unique show False by fastforce
qed

lemma path_chain_distinct: "path_chain h p ps \<Longrightarrow> distinct (p # ps)"
proof (induction ps arbitrary: p)
  case Nil
  then show ?case by simp
next
  case (Cons q qs)
  from Cons.prems have a: "path_chain h q qs" by (auto split: option.splits)
  from Cons.IH [OF a] path_chain_notin [OF Cons.prems] show ?case by simp
qed

subsection \<open>AddFlow along a chain\<close>

lemma flows_added_0 [simp]: "flows_added S 0 h = h"
  by (rule ext) (simp add: flows_added_def split: option.splits)

lemma chain_edges_flows_added [simp]: "chain_edges (flows_added S r h) p ps = chain_edges h p ps"
  by (induction ps arbitrary: p) (auto simp: node_of_def flows_added_def split: option.splits)

lemma path_chain_flows_added [simp]: "path_chain (flows_added S r h) p ps = path_chain h p ps"
  by (induction ps arbitrary: p) (auto simp: flows_added_def split: option.splits)

lemma add_to_flow_flows_added:
  "p \<notin> S \<Longrightarrow> add_to_flow p r (flows_added S r h) = flows_added (insert p S) r h"
  by (rule ext) (auto simp: add_to_flow_def update_Path_def flows_added_def split: option.splits)

lemma AddFlow_no_parent:
  "h this = Some T \<Longrightarrow> parent T = None \<Longrightarrow>
     AddFlow this f max_saturation h job = Some (f, h(this \<mapsto> T\<lparr>flow := flow T + f\<rparr>), job)"
  by (subst AddFlow.simps) (simp add: add_to_flow_def update_Path_def)

lemma AddFlow_chain:
  assumes "path_chain h p ps"
  shows "\<exists>r job'. AddFlow p f sat h job = Some (r, flows_added (set (p # ps)) r h, job')
           \<and> r \<le> f \<and> link_graph job' = link_graph job
           \<and> (\<forall>a b. edge_flow job' a b
                     = edge_flow job a b + r * of_nat (count_list (chain_edges h p ps) (a, b)))
           \<and> (sat \<noteq> UINT_MAX \<longrightarrow> r = 0 \<or>
                 (\<forall>e \<in> set (chain_edges h p ps).
                     edge_flow job (fst e) (snd e) < usable_cap job (fst e) (snd e) sat
                     \<and> r \<le> usable_cap job (fst e) (snd e) sat - edge_flow job (fst e) (snd e)))"
  using assms
proof (induction ps arbitrary: p f)
  case Nil
  then obtain T where T: "h p = Some T" "parent T = None" by (auto split: option.splits)
  have "flows_added {p} f h = h(p \<mapsto> T\<lparr>flow := flow T + f\<rparr>)"
    using T by (auto simp: flows_added_def split: option.splits)
  with AddFlow_no_parent [of h p T f sat job] T show ?case by simp
next
  case (Cons q qs)
  then obtain T where T: "h p = Some T" "parent T = Some q" and q: "path_chain h q qs"
    by (auto split: option.splits)
  from path_chain_obj [OF q] obtain P where P: "h q = Some P" by auto
  from path_chain_notin [OF Cons.prems] have pn: "p \<notin> set (q # qs)" .
  let ?a = "node P" and ?b = "node T"
  have ce: "node_of h q = ?a" "node_of h p = ?b"
    using T P by (simp_all add: node_of_def)
  show ?case
  proof (cases "sat \<noteq> UINT_MAX \<and> \<not> (usable_cap job ?a ?b sat > Edge_Flow job ?a ?b)")
    case True
    then have "AddFlow p f sat h job = Some (0, h, job)"
      using T P by (subst AddFlow.simps) simp
    then show ?thesis by simp
  next
    case False
    let ?nf = "if sat \<noteq> UINT_MAX then min_uint f (usable_cap job ?a ?b sat - Edge_Flow job ?a ?b) else f"
    from Cons.IH [OF q, of ?nf] obtain r job1 where
      rec: "AddFlow q ?nf sat h job = Some (r, flows_added (set (q # qs)) r h, job1)"
      and le: "r \<le> ?nf" and lg: "link_graph job1 = link_graph job"
      and ef: "\<forall>a b. edge_flow job1 a b
                     = edge_flow job a b + r * of_nat (count_list (chain_edges h q qs) (a, b))"
      and us: "sat \<noteq> UINT_MAX \<longrightarrow> r = 0 \<or>
                 (\<forall>e \<in> set (chain_edges h q qs).
                     edge_flow job (fst e) (snd e) < usable_cap job (fst e) (snd e) sat
                     \<and> r \<le> usable_cap job (fst e) (snd e) sat - edge_flow job (fst e) (snd e))"
      by blast
    let ?h1 = "flows_added (set (q # qs)) r h"
    have h1p: "?h1 p = Some T" using T pn by (simp add: flows_added_def)
    have h1q: "?h1 q = Some (P\<lparr>flow := flow P + r\<rparr>)" using P by (simp add: flows_added_def)
    let ?job2 = "Edge_AddFlow ?a ?b r
                   (if flow T = 0 \<and> r > 0 then Paths_push_back ?a p job1 else job1)"
    have step: "AddFlow p f sat h job = Some (r, add_to_flow p r ?h1, ?job2)"
      using T P False rec h1p h1q
      by (subst AddFlow.simps) (cases "sat = UINT_MAX"; simp add: AddFlow_record_def)
    have heap: "add_to_flow p r ?h1 = flows_added (set (p # q # qs)) r h"
      using add_to_flow_flows_added [OF pn] by simp
    have nf_le: "?nf \<le> f" by (auto simp: min_uint_def)
    have r_le: "r \<le> f" using le nf_le by (rule order_trans)
    have lg2: "link_graph ?job2 = link_graph job"
      using lg by (simp add: Edge_AddFlow_def Paths_push_back_def)
    have ef2: "\<forall>a b. edge_flow ?job2 a b
                     = edge_flow job a b + r * of_nat (count_list (chain_edges h p (q # qs)) (a, b))"
      using ef by (auto simp: ce Edge_AddFlow_def Paths_push_back_def algebra_simps)
    have us2: "sat \<noteq> UINT_MAX \<longrightarrow> r = 0 \<or>
                 (\<forall>e \<in> set (chain_edges h p (q # qs)).
                     edge_flow job (fst e) (snd e) < usable_cap job (fst e) (snd e) sat
                     \<and> r \<le> usable_cap job (fst e) (snd e) sat - edge_flow job (fst e) (snd e))"
    proof (intro impI)
      assume fin: "sat \<noteq> UINT_MAX"
      with False have lt: "edge_flow job ?a ?b < usable_cap job ?a ?b sat"
        by (simp add: Edge_Flow_def)
      from fin le have "r \<le> usable_cap job ?a ?b sat - edge_flow job ?a ?b"
        by (auto simp: min_uint_def Edge_Flow_def split: if_splits)
      with lt us fin show "r = 0 \<or>
                 (\<forall>e \<in> set (chain_edges h p (q # qs)).
                     edge_flow job (fst e) (snd e) < usable_cap job (fst e) (snd e) sat
                     \<and> r \<le> usable_cap job (fst e) (snd e) sat - edge_flow job (fst e) (snd e))"
        by (auto simp: ce)
    qed
    from step heap have s: "AddFlow p f sat h job
                              = Some (r, flows_added (set (p # q # qs)) r h, ?job2)"
      by simp
    show ?thesis
      apply (rule exI [of _ r])
      apply (rule exI [of _ ?job2])
      apply (intro conjI)
          apply (fact s)
         apply (fact r_le)
        apply (fact lg2)
       apply (fact ef2)
      apply (fact us2)
      done
  qed
qed

text \<open>C10: a root leg (no parent) takes the whole amount, whatever the saturation:
  the call returns the requested amount, adds it to the leg's own flow (32-bit addition),
  leaves every other leg and the whole job, so every edge, untouched.\<close>

theorem AddFlow_root:
  assumes "h this = Some T" and "parent T = None"
  shows "AddFlow this f max_saturation h job
           = Some (f, h(this \<mapsto> T\<lparr>flow := flow T + f\<rparr>), job)"
  using assms by (rule AddFlow_no_parent)

theorem AddFlow_root_witness:
  "AddFlow 0 7 50 [0 \<mapsto> new_Path 3 True] ex_job
     = Some (7, [0 \<mapsto> (new_Path 3 True)\<lparr>flow := 7\<rparr>], ex_job)"
  using AddFlow_root [of "[0 \<mapsto> new_Path 3 True]" 0 "new_Path 3 True" 7 50 ex_job]
  by (simp add: new_Path_def)

lemma flow_of_flows_added:
  "h p \<noteq> None \<Longrightarrow>
     flow_of (flows_added S r h) p = (if p \<in> S then flow_of h p + r else flow_of h p)"
  by (auto simp: flow_of_def flows_added_def split: option.splits)

lemma path_chain_flow_obj: "path_chain h p ps \<Longrightarrow> \<exists>P. h p = Some P"
  by (cases ps) (auto split: option.splits)

text \<open>C4: on a leg whose parent pointers lead to a root, \<^verbatim>\<open>AddFlow\<close> returns; the
  value returned is at most the requested amount and at least 0, and the leg's own flow
  has grown by exactly the value returned (32-bit addition), for every requested amount
  and every saturation.\<close>

theorem AddFlow_returns_pushed:
  assumes "path_chain h this ps"
  shows "\<exists>r h' job'. AddFlow this new_flow max_saturation h job = Some (r, h', job')
           \<and> r \<le> new_flow \<and> 0 \<le> r \<and> flow_of h' this = flow_of h this + r"
proof -
  from AddFlow_chain [OF assms, of new_flow max_saturation job] obtain r job' where
    "AddFlow this new_flow max_saturation h job = Some (r, flows_added (set (this # ps)) r h, job')"
    "r \<le> new_flow" by blast
  then show ?thesis using path_chain_obj [OF assms] by (simp add: flow_of_flows_added)
qed

theorem AddFlow_returns_pushed_witness:
  "path_chain ex_heap 1 [0] \<and>
   (\<exists>r h' job'. AddFlow 1 20 50 ex_heap ex_job = Some (r, h', job')
           \<and> r \<le> 20 \<and> 0 \<le> r \<and> flow_of h' 1 = flow_of ex_heap 1 + r)"
  using AddFlow_returns_pushed [of ex_heap 1 "[0]" 20 50 ex_job]
  by (simp add: ex_heap_def new_Path_def)

lemma word_add_within: "(x::u32) < u \<Longrightarrow> r \<le> u - x \<Longrightarrow> x + r \<le> u"
  by unat_arith

lemma count_list_distinct: "distinct xs \<Longrightarrow> count_list xs x = (if x \<in> set xs then 1 else 0)"
  by (induction xs) auto

lemma AddFlow_keeps_within_usable:
  assumes c: "path_chain h p ps" and d: "distinct (chain_edges h p ps)"
    and fin: "sat \<noteq> UINT_MAX" and inv: "within_usable job sat"
  shows "\<exists>r job'. AddFlow p f sat h job = Some (r, flows_added (set (p # ps)) r h, job')
           \<and> within_usable job' sat"
proof -
  from AddFlow_chain [OF c, of f sat job] fin obtain r job' where
    s: "AddFlow p f sat h job = Some (r, flows_added (set (p # ps)) r h, job')"
    and lg: "link_graph job' = link_graph job"
    and ef: "\<forall>a b. edge_flow job' a b
                     = edge_flow job a b + r * of_nat (count_list (chain_edges h p ps) (a, b))"
    and us: "r = 0 \<or>
                 (\<forall>e \<in> set (chain_edges h p ps).
                     edge_flow job (fst e) (snd e) < usable_cap job (fst e) (snd e) sat
                     \<and> r \<le> usable_cap job (fst e) (snd e) sat - edge_flow job (fst e) (snd e))"
    by blast
  have uc: "usable_cap job' a b sat = usable_cap job a b sat" for a b
    using lg by (simp add: usable_cap_def Edge_Capacity_def)
  have "Edge_Flow job' a b \<le> usable_cap job' a b sat" for a b
  proof -
    have old: "edge_flow job a b \<le> usable_cap job a b sat"
      using inv by (simp add: within_usable_def Edge_Flow_def)
    show ?thesis
    proof (cases "r = 0 \<or> (a, b) \<notin> set (chain_edges h p ps)")
      case True
      then have "edge_flow job' a b = edge_flow job a b"
        using ef d by (auto simp: count_list_distinct)
      with old show ?thesis by (simp add: uc Edge_Flow_def)
    next
      case False
      then have m: "(a, b) \<in> set (chain_edges h p ps)" and "r \<noteq> 0" by auto
      with us have "edge_flow job a b < usable_cap job a b sat"
        "r \<le> usable_cap job a b sat - edge_flow job a b" by auto
      then have "edge_flow job a b + r \<le> usable_cap job a b sat" by (rule word_add_within)
      moreover have "edge_flow job' a b = edge_flow job a b + r"
        using ef d m by (simp add: count_list_distinct)
      ultimately show ?thesis by (simp add: uc Edge_Flow_def)
    qed
  qed
  then have "within_usable job' sat" by (simp add: within_usable_def)
  with s show ?thesis by blast
qed

lemma AddFlow_calls_keep_within_usable:
  assumes fin: "sat \<noteq> UINT_MAX"
  shows "within_usable job sat \<Longrightarrow>
         \<forall>c \<in> set calls. \<exists>ps. path_chain h (fst c) ps \<and> distinct (chain_edges h (fst c) ps) \<Longrightarrow>
         \<exists>h' job'. AddFlow_calls calls sat h job = Some (h', job') \<and> within_usable job' sat"
proof (induction calls arbitrary: h job)
  case Nil
  then show ?case by simp
next
  case (Cons c cs)
  from Cons.prems(2) obtain ps where ps: "path_chain h (fst c) ps" "distinct (chain_edges h (fst c) ps)"
    by auto
  from AddFlow_keeps_within_usable [OF ps fin Cons.prems(1), of "snd c"] obtain r job1 where
    s: "AddFlow (fst c) (snd c) sat h job = Some (r, flows_added (set (fst c # ps)) r h, job1)"
    and w: "within_usable job1 sat" by blast
  have "\<forall>c \<in> set cs. \<exists>ps'. path_chain (flows_added (set (fst c # ps)) r h) (fst c) ps'
            \<and> distinct (chain_edges (flows_added (set (fst c # ps)) r h) (fst c) ps')"
    using Cons.prems(2) by simp
  have rest: "\<forall>d \<in> set cs. \<exists>ps'. path_chain (flows_added (set (fst c # ps)) r h) (fst d) ps'
            \<and> distinct (chain_edges (flows_added (set (fst c # ps)) r h) (fst d) ps')"
    using Cons.prems(2) by simp
  from Cons.IH [OF w rest] s show ?case by simp
qed

lemma usable_cap_exact:
  "unat (usable_cap j a b s) \<le> unat (Edge_Capacity j a b) * unat s div 100"
proof -
  have "unat (Edge_Capacity j a b * s) \<le> unat (Edge_Capacity j a b) * unat s"
    by (simp add: unat_word_ariths)
  then have "unat (Edge_Capacity j a b * s) div 100 \<le> unat (Edge_Capacity j a b) * unat s div 100"
    by (rule div_le_mono)
  then show ?thesis by (simp add: usable_cap_def unat_div)
qed

lemma within_usable_exact:
  "within_usable job s \<Longrightarrow>
     unat (Edge_Flow job a b) \<le> unat (Edge_Capacity job a b) * unat s div 100"
proof -
  assume "within_usable job s"
  then have "unat (Edge_Flow job a b) \<le> unat (usable_cap job a b s)"
    by (simp add: within_usable_def word_le_nat_alt)
  with usable_cap_exact [of job a b s] show ?thesis by simp
qed

text \<open>C3, as amended: with one finite saturation, starting from edge flows within the
  usable capacity \<^verbatim>\<open>capacity * max_saturation / 100\<close> (as the code computes it), every
  sequence of \<^verbatim>\<open>AddFlow\<close> calls on legs whose chain to the root crosses no edge twice
  returns and leaves every edge within its usable capacity, hence within the same bound
  computed without wrap-around; and when the flow of the
  leg's edge is at or above the usable capacity, the call returns 0 and changes neither
  the legs nor the job: it does not recurse and records nothing.\<close>

theorem AddFlow_within_usable:
  "(max_saturation \<noteq> UINT_MAX \<and> within_usable job max_saturation
      \<and> (\<forall>c \<in> set calls. \<exists>ps. path_chain h (fst c) ps \<and> distinct (chain_edges h (fst c) ps))
    \<longrightarrow> (\<exists>h' job'. AddFlow_calls calls max_saturation h job = Some (h', job')
             \<and> within_usable job' max_saturation
             \<and> (\<forall>a b. unat (Edge_Flow job' a b)
                        \<le> unat (Edge_Capacity job' a b) * unat max_saturation div 100)))
   \<and> (max_saturation \<noteq> UINT_MAX \<and> h this = Some T \<and> parent T = Some p \<and> h p = Some P
        \<and> usable_cap job (node P) (node T) max_saturation \<le> Edge_Flow job (node P) (node T)
      \<longrightarrow> AddFlow this f max_saturation h job = Some (0, h, job))"
proof (intro conjI impI)
  assume "max_saturation \<noteq> UINT_MAX \<and> within_usable job max_saturation
      \<and> (\<forall>c \<in> set calls. \<exists>ps. path_chain h (fst c) ps \<and> distinct (chain_edges h (fst c) ps))"
  then obtain h' job' where "AddFlow_calls calls max_saturation h job = Some (h', job')"
    and "within_usable job' max_saturation"
    using AddFlow_calls_keep_within_usable by blast
  then show "\<exists>h' job'. AddFlow_calls calls max_saturation h job = Some (h', job')
             \<and> within_usable job' max_saturation
             \<and> (\<forall>a b. unat (Edge_Flow job' a b)
                        \<le> unat (Edge_Capacity job' a b) * unat max_saturation div 100)"
    using within_usable_exact by blast
next
  assume "max_saturation \<noteq> UINT_MAX \<and> h this = Some T \<and> parent T = Some p \<and> h p = Some P
        \<and> usable_cap job (node P) (node T) max_saturation \<le> Edge_Flow job (node P) (node T)"
  then show "AddFlow this f max_saturation h job = Some (0, h, job)"
    by (subst AddFlow.simps) (simp add: not_less)
qed

theorem AddFlow_within_usable_witness:
  "(50 \<noteq> UINT_MAX \<and> within_usable ex_job_loaded 50
      \<and> path_chain ex_heap 1 [0] \<and> distinct (chain_edges ex_heap 1 [0])
      \<and> (\<exists>h' job'. AddFlow_calls [(1, 20)] 50 ex_heap ex_job_loaded = Some (h', job')
             \<and> within_usable job' 50))
   \<and> (ex_heap 1 = Some ((new_Path 1 False)\<lparr>parent := Some 0\<rparr>)
        \<and> ex_heap 0 = Some (new_Path 0 True)
        \<and> usable_cap ex_job_loaded 0 1 50 \<le> Edge_Flow ex_job_loaded 0 1
        \<and> AddFlow 1 20 50 ex_heap ex_job_loaded = Some (0, ex_heap, ex_job_loaded))"
proof -
  have fin: "(50 :: u32) \<noteq> UINT_MAX" by (simp add: UINT_MAX_def)
  have us: "usable_cap ex_job_loaded a b 50 = 5" for a b
    by (simp add: usable_cap_def Edge_Capacity_def ex_job_loaded_def ex_job_def ex_graph_def)
  have w: "within_usable ex_job_loaded 50"
    by (simp add: within_usable_def us) (simp add: Edge_Flow_def ex_job_loaded_def)
  have pc: "path_chain ex_heap 1 [0] \<and> distinct (chain_edges ex_heap 1 [0])"
    by (simp add: ex_heap_def new_Path_def)
  then have "\<exists>ps. path_chain ex_heap 1 ps \<and> distinct (chain_edges ex_heap 1 ps)"
    by (rule exI)
  then have c: "\<forall>c \<in> set [(1, 20 :: u32)]. \<exists>ps. path_chain ex_heap (fst c) ps
                                      \<and> distinct (chain_edges ex_heap (fst c) ps)"
    by simp
  have h1: "ex_heap 1 = Some ((new_Path 1 False)\<lparr>parent := Some 0\<rparr>)"
    and h0: "ex_heap 0 = Some (new_Path 0 True)"
    by (simp_all add: ex_heap_def)
  have le: "usable_cap ex_job_loaded 0 1 50 \<le> Edge_Flow ex_job_loaded 0 1"
    by (simp add: us) (simp add: Edge_Flow_def ex_job_loaded_def)
  have le': "usable_cap ex_job_loaded (node (new_Path 0 True))
               (node ((new_Path 1 False)\<lparr>parent := Some 0\<rparr>)) 50
             \<le> Edge_Flow ex_job_loaded (node (new_Path 0 True))
                  (node ((new_Path 1 False)\<lparr>parent := Some 0\<rparr>))"
    using le by (simp add: new_Path_def)
  from AddFlow_within_usable
         [of 50 ex_job_loaded "[(1, 20)]" ex_heap 1 "(new_Path 1 False)\<lparr>parent := Some 0\<rparr>" 0
             "new_Path 0 True" 20]
       fin w c h1 h0 le le' pc
  show ?thesis by simp
qed

text \<open>C3 as stated fails on a chain that crosses an edge twice: on the chain through the
  nodes 0, 1, 0, 1, with capacity 10 and saturation 100 (usable capacity 10) and no
  flow yet, pushing 10 from the last leg passes the clamp of every leg before any
  flow is added, and both legs on the edge from 0 to 1 add 10 to it: the edge ends
  at 20.\<close>

theorem AddFlow_repeated_edge_counterexample:
  "flow_after 0 1 (AddFlow 3 10 100 cx_heap ex_job) = Some 20
   \<and> usable_cap ex_job 0 1 100 = 10"
proof -
  note defs = cx_heap_def new_Path_def add_to_flow_def update_Path_def AddFlow_record_def
    usable_cap_def Edge_Capacity_def Edge_Flow_def Edge_AddFlow_def Paths_push_back_def
    ex_job_def ex_graph_def min_uint_def UINT_MAX_def flow_after_def
  have "flow_after 0 1 (AddFlow 3 10 100 cx_heap ex_job) = Some 20"
    apply (subst AddFlow.simps, simp add: defs)
    apply (subst AddFlow.simps, simp add: defs)
    apply (subst AddFlow.simps, simp add: defs)
    apply (subst AddFlow.simps, simp add: defs)
    done
  moreover have "usable_cap ex_job 0 1 100 = 10"
    by (simp add: defs)
  ultimately show ?thesis by simp
qed

subsection \<open>Fork\<close>

lemma update_Path_None [simp]: "(update_Path p f h q = None) = (h q = None)"
  by (simp add: update_Path_def split: option.splits)

lemma children_of_update_keep:
  "(\<And>x. num_children (f x) = num_children x) \<Longrightarrow>
     children_of (update_Path p f h) q = children_of h q"
  by (simp add: children_of_def update_Path_def split: option.splits)

lemma children_of_update_dec:
  "h p \<noteq> None \<Longrightarrow>
     children_of (update_Path p (\<lambda>x. x\<lparr>num_children := num_children x - 1\<rparr>) h) q
       = (if q = p then children_of h p - 1 else children_of h q)"
  by (auto simp: children_of_def update_Path_def split: option.splits)

lemma children_of_update_inc:
  "h p \<noteq> None \<Longrightarrow>
     children_of (update_Path p (\<lambda>x. x\<lparr>num_children := num_children x + 1\<rparr>) h) q
       = (if q = p then children_of h p + 1 else children_of h q)"
  by (auto simp: children_of_def update_Path_def split: option.splits)

lemma parent_of_update_keep:
  "(\<And>x. parent (f x) = parent x) \<Longrightarrow> parent_of (update_Path p f h) q = parent_of h q"
  by (simp add: parent_of_def update_Path_def split: option.splits)

lemma parent_of_update_parent:
  "h p \<noteq> None \<Longrightarrow>
     parent_of (update_Path p (\<lambda>x. x\<lparr>parent := v\<rparr>) h) q = (if q = p then v else parent_of h q)"
  by (auto simp: parent_of_def update_Path_def split: option.splits)

lemma Detach_Some:
  "Detach this h = Some h' \<Longrightarrow>
     h this \<noteq> None \<and>
     (case parent_of h this of
        None \<Rightarrow> h' = h
      | Some p \<Rightarrow> h p \<noteq> None \<and>
          h' = update_Path this (\<lambda>x. x\<lparr>parent := None\<rparr>)
                 (update_Path p (\<lambda>x. x\<lparr>num_children := num_children x - 1\<rparr>) h))"
  by (auto simp: Detach_def parent_of_def split: option.splits)

lemma Fork_fields_None [simp]: "(Fork_fields this base cap fc d h q = None) = (h q = None)"
  by (simp add: Fork_fields_def Let_def)

lemma children_of_Fork_fields [simp]:
  "children_of (Fork_fields this base cap fc d h) q = children_of h q"
  by (simp add: Fork_fields_def Let_def children_of_update_keep)

lemma parent_of_Fork_fields [simp]:
  "parent_of (Fork_fields this base cap fc d h) q = parent_of h q"
  by (simp add: Fork_fields_def Let_def parent_of_update_keep)

lemma Fork_unfold:
  "Fork this base cap fc d h =
     (if h this = None \<or> h base = None then None
      else if \<not> (distance (the (Fork_fields this base cap fc d h this)) > 0) then None
      else Option.bind
               (if parent (the (Fork_fields this base cap fc d h this)) \<noteq> Some base
                then map_option
                       (\<lambda>h4. update_Path base (\<lambda>x. x\<lparr>num_children := num_children x + 1\<rparr>)
                                (SetParent this base h4))
                       (Detach this (Fork_fields this base cap fc d h))
                else Some (Fork_fields this base cap fc d h))
               (\<lambda>h5. Some (update_Path this (\<lambda>x. x\<lparr>origin := origin (the (h5 base))\<rparr>) h5)))"
  by (simp add: Fork_def Fork_fields_def Let_def)

lemma Fork_Some:
  assumes "Fork this base cap fc d h = Some h'"
  shows "h this \<noteq> None \<and> h base \<noteq> None \<and> distance_of (Fork_fields this base cap fc d h) this \<noteq> 0 \<and>
         (\<exists>h5. h' = update_Path this (\<lambda>x. x\<lparr>origin := origin (the (h5 base))\<rparr>) h5 \<and>
            (if parent_of h this \<noteq> Some base
             then \<exists>h4. Detach this (Fork_fields this base cap fc d h) = Some h4 \<and>
                    h5 = update_Path base (\<lambda>x. x\<lparr>num_children := num_children x + 1\<rparr>)
                           (SetParent this base h4)
             else h5 = Fork_fields this base cap fc d h))"
proof -
  from assms have o: "h this \<noteq> None" "h base \<noteq> None"
    by (auto simp: Fork_def split: if_splits)
  let ?h3 = "Fork_fields this base cap fc d h"
  from o obtain T3 where T3: "?h3 this = Some T3"
    by (cases "?h3 this") auto
  have p3: "parent (the (?h3 this)) = parent_of h this"
    using parent_of_Fork_fields [of this base cap fc d h this] T3 by (simp add: parent_of_def)
  have d3: "distance (the (?h3 this)) = distance_of ?h3 this"
    using T3 by (simp add: distance_of_def)
  from assms o have
    "(if \<not> (distance (the (?h3 this)) > 0) then None
      else Option.bind
               (if parent (the (?h3 this)) \<noteq> Some base
                then map_option
                       (\<lambda>h4. update_Path base (\<lambda>x. x\<lparr>num_children := num_children x + 1\<rparr>)
                                (SetParent this base h4))
                       (Detach this ?h3)
                else Some ?h3)
               (\<lambda>h5. Some (update_Path this (\<lambda>x. x\<lparr>origin := origin (the (h5 base))\<rparr>) h5))) = Some h'"
    by (simp add: Fork_unfold)
  then show ?thesis
    using o unfolding p3 d3
    by (auto simp: bind_eq_Some_conv word_greater_zero_iff split: if_splits)
qed

lemma Detach_returns:
  "h this \<noteq> None \<Longrightarrow> (\<forall>old. parent_of h this = Some old \<longrightarrow> h old \<noteq> None)
     \<Longrightarrow> \<exists>h'. Detach this h = Some h'"
  by (auto simp: Detach_def parent_of_def split: option.splits)

text \<open>\<^verbatim>\<open>Fork\<close> returns whenever the leg, the base and the leg's parent, if it has one,
  are objects and the new distance is not zero.\<close>

lemma Fork_returns:
  assumes "h this \<noteq> None" "h base \<noteq> None"
    and "\<forall>old. parent_of h this = Some old \<longrightarrow> h old \<noteq> None"
    and "distance_of (Fork_fields this base cap fc d h) this \<noteq> 0"
  shows "\<exists>h'. Fork this base cap fc d h = Some h'"
proof -
  let ?h3 = "Fork_fields this base cap fc d h"
  from assms(1) obtain T3 where T3: "?h3 this = Some T3"
    by (cases "?h3 this") auto
  have d3: "distance (the (?h3 this)) > 0"
    using assms(4) T3 by (simp add: distance_of_def word_greater_zero_iff)
  have "?h3 this \<noteq> None" using T3 by simp
  moreover have "\<forall>old. parent_of ?h3 this = Some old \<longrightarrow> ?h3 old \<noteq> None"
    using assms(3) by simp
  ultimately obtain h4 where h4: "Detach this ?h3 = Some h4"
    using Detach_returns [of ?h3 this] by blast
  show ?thesis
    unfolding Fork_unfold using assms(1,2) d3 h4 by simp
qed

text \<open>C9: when \<^verbatim>\<open>Fork\<close> succeeds on a leg whose parent is not \<open>base\<close>, the child
  count of \<open>base\<close> is one more and the leg's parent is \<open>base\<close>; the child count of the
  old parent, if the leg had one, is one less, and every other count is unchanged (the
  counters are 32-bit). A leg forked for the first time has no old parent: only the
  count of \<open>base\<close> changes. When the leg's parent already is \<open>base\<close>, no child count
  changes.\<close>

theorem Fork_child_counts:
  "(Fork this base cap free_cap dist h = Some h' \<and> parent_of h this \<noteq> Some base
      \<longrightarrow> children_of h' base = children_of h base + 1
          \<and> (\<forall>old. parent_of h this = Some old \<longrightarrow> children_of h' old = children_of h old - 1)
          \<and> (\<forall>q. q \<noteq> base \<and> parent_of h this \<noteq> Some q \<longrightarrow> children_of h' q = children_of h q)
          \<and> parent_of h' this = Some base)
   \<and> (Fork this base cap free_cap dist h = Some h' \<and> parent_of h this = Some base
      \<longrightarrow> (\<forall>q. children_of h' q = children_of h q) \<and> parent_of h' this = Some base)"
proof (rule conjI; rule impI)
  assume a: "Fork this base cap free_cap dist h = Some h' \<and> parent_of h this = Some base"
  from Fork_Some [of this base cap free_cap dist h h'] a
  have h': "h' = update_Path this (\<lambda>x. x\<lparr>origin := origin (the (Fork_fields this base cap free_cap dist h base))\<rparr>)
                 (Fork_fields this base cap free_cap dist h)"
    by auto
  have "\<forall>q. children_of h' q = children_of h q"
    by (simp add: h' children_of_update_keep)
  moreover have "parent_of h' this = Some base"
    using a by (simp add: h' parent_of_update_keep)
  ultimately show "(\<forall>q. children_of h' q = children_of h q) \<and> parent_of h' this = Some base"
    by simp
next
  assume a: "Fork this base cap free_cap dist h = Some h' \<and> parent_of h this \<noteq> Some base"
  let ?h3 = "Fork_fields this base cap free_cap dist h"
  from Fork_Some [of this base cap free_cap dist h h'] a obtain h4 h5 where
    o: "h this \<noteq> None" "h base \<noteq> None"
    and h': "h' = update_Path this (\<lambda>x. x\<lparr>origin := origin (the (h5 base))\<rparr>) h5"
    and h5: "h5 = update_Path base (\<lambda>x. x\<lparr>num_children := num_children x + 1\<rparr>) (SetParent this base h4)"
    and h4: "Detach this ?h3 = Some h4"
    by auto
  have c4: "children_of h4 q = (if parent_of h this = Some q then children_of h q - 1
                               else children_of h q)"
    and n4: "h4 q = None \<longleftrightarrow> h q = None" for q
  proof -
    show "children_of h4 q = (if parent_of h this = Some q then children_of h q - 1
                               else children_of h q)"
    proof (cases "parent_of h this")
      case None
      with Detach_Some [OF h4] have "h4 = ?h3" by simp
      with None show ?thesis by simp
    next
      case (Some old)
      with Detach_Some [OF h4] have oo: "h old \<noteq> None"
        and e: "h4 = update_Path this (\<lambda>x. x\<lparr>parent := None\<rparr>)
                   (update_Path old (\<lambda>x. x\<lparr>num_children := num_children x - 1\<rparr>) ?h3)"
        by auto
      from oo Some show ?thesis
        by (auto simp: e children_of_update_keep children_of_update_dec)
    qed
    show "h4 q = None \<longleftrightarrow> h q = None"
    proof (cases "parent_of h this")
      case None
      with Detach_Some [OF h4] have "h4 = ?h3" by simp
      then show ?thesis by simp
    next
      case (Some old)
      with Detach_Some [OF h4] have
        "h4 = update_Path this (\<lambda>x. x\<lparr>parent := None\<rparr>)
                   (update_Path old (\<lambda>x. x\<lparr>num_children := num_children x - 1\<rparr>) ?h3)"
        by auto
      then show ?thesis by simp
    qed
  qed
  have c5: "children_of h5 q = (if q = base then children_of h4 base + 1 else children_of h4 q)" for q
    using o n4 by (simp add: h5 SetParent_def children_of_update_keep children_of_update_inc)
  have c': "children_of h' q = children_of h5 q" for q
    by (simp add: h' children_of_update_keep)
  have p5: "parent_of h5 this = Some base"
    using o n4 by (simp add: h5 SetParent_def parent_of_update_keep parent_of_update_parent)
  have p': "parent_of h' this = Some base"
    using p5 by (simp add: h' parent_of_update_keep)
  show "children_of h' base = children_of h base + 1
          \<and> (\<forall>old. parent_of h this = Some old \<longrightarrow> children_of h' old = children_of h old - 1)
          \<and> (\<forall>q. q \<noteq> base \<and> parent_of h this \<noteq> Some q \<longrightarrow> children_of h' q = children_of h q)
          \<and> parent_of h' this = Some base"
    using a p' by (auto simp: c' c5 c4)
qed

lemmas Fork_eval = Fork_def Let_def update_Path_def Detach_def SetParent_def new_Path_def
  min_uint_def min_int_def UINT_MAX_def INT_MAX_def INT_MIN_def

text \<open>On three legs as the constructor leaves them, two sources and a fresh leg: the first
  fork of leg 2, onto leg 0, counts it as a child of 0; forked onto leg 1 it is moved,
  one child less for 0 and one more for 1; forked onto leg 1 again, nothing is counted.\<close>

theorem Fork_child_counts_witness:
  "\<exists>h1 h2 h3.
      Fork 2 0 10 10 5 fresh_heap = Some h1 \<and> parent_of fresh_heap 2 = None
      \<and> children_of fresh_heap 0 = 0 \<and> children_of h1 0 = 1 \<and> children_of h1 1 = 0
      \<and> parent_of h1 2 = Some 0
      \<and> Fork 2 1 10 10 5 h1 = Some h2
      \<and> children_of h2 0 = 0 \<and> children_of h2 1 = 1 \<and> children_of h2 2 = 0
      \<and> parent_of h2 2 = Some 1
      \<and> Fork 2 1 8 8 3 h2 = Some h3
      \<and> children_of h3 0 = 0 \<and> children_of h3 1 = 1 \<and> children_of h3 2 = 0"
proof -
  have c0: "children_of fresh_heap 0 = 0" "children_of fresh_heap 1 = 0"
    "children_of fresh_heap 2 = 0" "parent_of fresh_heap 2 = None"
    by (simp_all add: children_of_def parent_of_def fresh_heap_def new_Path_def)
  obtain h1 where h1: "Fork 2 0 10 10 5 fresh_heap = Some h1"
    by (simp add: Fork_eval fresh_heap_def)
  from Fork_child_counts [of 2 0 10 10 5 fresh_heap h1] h1 c0
  have c1: "children_of h1 0 = 1" "children_of h1 1 = 0" "children_of h1 2 = 0"
    "parent_of h1 2 = Some 0"
    by simp_all
  obtain h2 where h2: "Fork 2 1 10 10 5 h1 = Some h2"
    using h1 by (auto simp: Fork_eval fresh_heap_def split: if_splits)
  from Fork_child_counts [of 2 1 10 10 5 h1 h2] h2 c1
  have c2: "children_of h2 0 = 0" "children_of h2 1 = 1" "children_of h2 2 = 0"
    "parent_of h2 2 = Some 1"
    by simp_all
  obtain h3 where h3: "Fork 2 1 8 8 3 h2 = Some h3"
    using h1 h2 by (auto simp: Fork_eval fresh_heap_def split: if_splits)
  from Fork_child_counts [of 2 1 8 8 3 h2 h3] h3 c2
  have c3: "children_of h3 0 = 0" "children_of h3 1 = 1" "children_of h3 2 = 0"
    by simp_all
  from h1 h2 h3 c0 c1 c2 c3 show ?thesis by blast
qed








lemma leg_below_geom:
  "leg_below s h a b =
     (case (geom h a, geom h b) of
        (Some (da, ca, fa, pa), Some (db, cb, fb, pb)) \<Rightarrow>
           pb = Some a \<and> (s \<longrightarrow> da < db) \<and> cb \<le> ca \<and> sint fb \<le> sint fa
      | _ \<Rightarrow> False)"
  by (simp add: leg_below_def geom_def split: option.splits)

lemma chain_ordered_geom:
  "\<forall>q \<in> set xs. geom h q = geom h' q \<Longrightarrow> chain_ordered s h xs = chain_ordered s h' xs"
  by (induction s h xs rule: chain_ordered.induct) (simp_all add: leg_below_geom)









subsection \<open>EraseFlows and FinaliseJob\<close>

lemma EraseFlows_loop_eq:
  "EraseFlows_loop X k j =
     j\<lparr>node_flows := (\<lambda>n. if k \<le> n \<and> n < Size j then FlowStatMap_erase X (node_flows j n)
                          else node_flows j n)\<rparr>"
proof (induction X k j rule: EraseFlows_loop.induct)
  case (1 X k j)
  show ?case
  proof (cases "k < Size j")
    case True
    let ?j1 = "j\<lparr>node_flows := (node_flows j)(k := FlowStatMap_erase X (node_flows j k))\<rparr>"
    have sz: "Size ?j1 = Size j" by (simp add: Size_def)
    have "EraseFlows_loop X k j = EraseFlows_loop X (Suc k) ?j1"
      using True by (subst EraseFlows_loop.simps) simp
    also have "\<dots> = ?j1\<lparr>node_flows := (\<lambda>n. if Suc k \<le> n \<and> n < Size ?j1
                                               then FlowStatMap_erase X (node_flows ?j1 n)
                                               else node_flows ?j1 n)\<rparr>"
      using True by (rule "1.IH")
    also have "\<dots> = j\<lparr>node_flows := (\<lambda>n. if k \<le> n \<and> n < Size j then FlowStatMap_erase X (node_flows j n)
                          else node_flows j n)\<rparr>"
      using True by (auto simp: sz fun_eq_iff)
    finally show ?thesis .
  next
    case False
    then have "EraseFlows_loop X k j = j"
      by (subst EraseFlows_loop.simps) simp
    moreover have "(\<lambda>n. if k \<le> n \<and> n < Size j then FlowStatMap_erase X (node_flows j n)
                          else node_flows j n) = node_flows j"
      using False by (auto simp: fun_eq_iff)
    ultimately show ?thesis by simp
  qed
qed

lemma EraseFlows_eq:
  "EraseFlows X j =
     j\<lparr>node_flows := (\<lambda>n. if n < Size j then FlowStatMap_erase X (node_flows j n)
                          else node_flows j n)\<rparr>"
  by (simp add: EraseFlows_def EraseFlows_loop_eq)

text \<open>C8: after \<^verbatim>\<open>EraseFlows(X)\<close> no flow table of a node of the job has an entry of
  origin \<open>X\<close>; every table is the table before without its entry of origin \<open>X\<close>, and
  nothing but the flow tables of the job changes.\<close>

theorem EraseFlows_no_origin:
  "(\<forall>n. n < Size j \<longrightarrow>
        X \<notin> origins (node_flows (EraseFlows X j) n)
        \<and> node_flows (EraseFlows X j) n = filter (\<lambda>f. fs_origin f \<noteq> X) (node_flows j n))
   \<and> EraseFlows X j = j\<lparr>node_flows := node_flows (EraseFlows X j)\<rparr>"
  by (auto simp: EraseFlows_eq origins_def FlowStatMap_erase_def)

theorem EraseFlows_no_origin_witness:
  "0 < Size ex_job_flows
   \<and> 2 \<notin> origins (node_flows (EraseFlows 2 ex_job_flows) 0)
   \<and> node_flows (EraseFlows 2 ex_job_flows) 0 = [\<lparr> fs_origin = 1, fs_shares = [share_to 1] \<rparr>]
   \<and> node_flows (EraseFlows 2 ex_job_flows) 1 = []"
proof -
  have s: "Size ex_job_flows = 2"
    by (simp add: Size_def ex_job_flows_def ex_job_def ex_graph_def)
  from EraseFlows_no_origin [of ex_job_flows 2]
  have a: "\<forall>n. n < Size ex_job_flows \<longrightarrow>
        2 \<notin> origins (node_flows (EraseFlows 2 ex_job_flows) n)
        \<and> node_flows (EraseFlows 2 ex_job_flows) n
            = filter (\<lambda>f. fs_origin f \<noteq> 2) (node_flows ex_job_flows n)"
    by (rule conjunct1)
  from a [rule_format, of 0] a [rule_format, of 1] s
  have "2 \<notin> origins (node_flows (EraseFlows 2 ex_job_flows) 0)
        \<and> node_flows (EraseFlows 2 ex_job_flows) 0
            = filter (\<lambda>f. fs_origin f \<noteq> 2) (node_flows ex_job_flows 0)
        \<and> node_flows (EraseFlows 2 ex_job_flows) 1
            = filter (\<lambda>f. fs_origin f \<noteq> 2) (node_flows ex_job_flows 1)"
    by auto
  moreover have "node_flows ex_job_flows 0 = [\<lparr> fs_origin = 1, fs_shares = [share_to 1] \<rparr>,
                                              \<lparr> fs_origin = 2, fs_shares = [share_to 1] \<rparr>]"
    and "node_flows ex_job_flows 1 = [\<lparr> fs_origin = 2, fs_shares = [share_to 0] \<rparr>]"
    by (simp_all add: ex_job_flows_def)
  ultimately show ?thesis
    by (simp add: s origins_def)
qed

text \<open>C7: when the index of the job's graph is the index of no live graph,
  \<^verbatim>\<open>FinaliseJob\<close> only joins the thread: the world (stations, flow tables, graphs, calls
  made) is returned as it was, and a second call on the resulting job does the same.\<close>

theorem FinaliseJob_vanished_graph:
  assumes "link_graphs w (lg_index (link_graph job)) = None"
  shows "FinaliseJob Invalidate g job w = (JoinThread job, w)
         \<and> FinaliseJob Invalidate g (fst (FinaliseJob Invalidate g job w))
                        (snd (FinaliseJob Invalidate g job w)) = (JoinThread job, w)"
proof -
  have lg: "link_graph (JoinThread x) = link_graph x" for x
    by (simp add: JoinThread_def split: option.splits)
  have jj: "JoinThread (JoinThread x) = JoinThread x" for x
    by (simp add: JoinThread_def split: option.splits)
  have one: "FinaliseJob Invalidate g job w = (JoinThread job, w)"
    using assms by (simp add: FinaliseJob_def Let_def lg)
  have two: "FinaliseJob Invalidate g (JoinThread job) w = (JoinThread job, w)"
    using assms by (simp add: FinaliseJob_def Let_def lg jj)
  show ?thesis by (simp add: one two)
qed

theorem FinaliseJob_vanished_graph_witness:
  "link_graphs gone_world (lg_index (link_graph ex_job)) = None
   \<and> FinaliseJob Invalidate_keep ex_settings ex_job gone_world = (ex_job, gone_world)
   \<and> FinaliseJob Invalidate_keep ex_settings
        (fst (FinaliseJob Invalidate_keep ex_settings ex_job gone_world))
        (snd (FinaliseJob Invalidate_keep ex_settings ex_job gone_world)) = (ex_job, gone_world)"
proof -
  have g: "link_graphs gone_world (lg_index (link_graph ex_job)) = None"
    by (simp add: gone_world_def)
  have j: "JoinThread ex_job = ex_job"
    by (simp add: JoinThread_def ex_job_def)
  from FinaliseJob_vanished_graph [OF g, of Invalidate_keep ex_settings] g j
  show ?thesis by simp
qed

lemma notin_originsD: "x \<notin> origins m \<Longrightarrow> f \<in> set m \<Longrightarrow> fs_origin f \<noteq> x"
  unfolding origins_def by (metis imageI)

lemma find_Some_origin:
  "FlowStatMap_find m x = Some n \<Longrightarrow> n \<in> set m \<and> fs_origin n = x"
  by (auto simp: FlowStatMap_find_def find_Some_iff)

lemma find_None_origins: "(FlowStatMap_find m x = None) = (x \<notin> origins m)"
  by (auto simp: FlowStatMap_find_def find_None_iff origins_def)

lemma find_distinct:
  "distinct (map fs_origin m) \<Longrightarrow> n \<in> set m \<Longrightarrow> FlowStatMap_find m (fs_origin n) = Some n"
  by (induction m) (auto simp: FlowStatMap_find_def)

lemma find_erase_other:
  "x \<noteq> y \<Longrightarrow> FlowStatMap_find (FlowStatMap_erase y m) x = FlowStatMap_find m x"
  by (induction m) (auto simp: FlowStatMap_find_def FlowStatMap_erase_def)

lemma origins_erase: "origins (FlowStatMap_erase y m) = origins m - {y}"
  by (auto simp: origins_def FlowStatMap_erase_def)

lemma SwapShares_same: "fs_origin n = fs_origin it \<Longrightarrow> SwapShares it n = n"
  by (simp add: SwapShares_def)

lemma merge_Nil: "FinaliseJob_merge Inv g c st [] flows = ([], flows, [])"
  by simp

lemma merge_Cons_found:
  "FlowStatMap_find flows (fs_origin it) = Some n \<Longrightarrow>
     FinaliseJob_merge Inv g c st (it # rest) flows =
       (n # fst (FinaliseJob_merge Inv g c st rest (FlowStatMap_erase (fs_origin it) flows)),
        snd (FinaliseJob_merge Inv g c st rest (FlowStatMap_erase (fs_origin it) flows)))"
  using find_Some_origin [of flows "fs_origin it" n]
  by (simp add: Let_def SwapShares_same)

lemma merge_Cons_missing:
  "FlowStatMap_find flows (fs_origin it) = None \<Longrightarrow>
     FinaliseJob_merge Inv g c st (it # rest) flows =
       (if fst (invalidated Inv g c it)
        then (fst (FinaliseJob_merge Inv g c st rest flows),
              fst (snd (FinaliseJob_merge Inv g c st rest flows)),
              map (\<lambda>s. RerouteCargo st c (share_via s) st) (fs_shares (snd (invalidated Inv g c it)))
                @ snd (snd (FinaliseJob_merge Inv g c st rest flows)))
        else (snd (invalidated Inv g c it) # fst (FinaliseJob_merge Inv g c st rest flows),
              snd (FinaliseJob_merge Inv g c st rest flows)))"
  by (simp add: Let_def invalidated_def)

lemma merge_result:
  "distinct (map fs_origin live) \<Longrightarrow>
     fst (FinaliseJob_merge Inv g c st live flows)
       = map (merged_entry Inv g c flows) (filter (entry_stays Inv g c flows) live)
     \<and> fst (snd (FinaliseJob_merge Inv g c st live flows))
       = filter (\<lambda>f. fs_origin f \<notin> origins live) flows"
proof (induction live arbitrary: flows)
  case Nil
  then show ?case by (simp add: origins_def)
next
  case (Cons it rest)
  from Cons.prems have d: "distinct (map fs_origin rest)" and nin: "fs_origin it \<notin> origins rest"
    by (auto simp: origins_def)
  show ?case
  proof (cases "FlowStatMap_find flows (fs_origin it)")
    case None
    then have no: "fs_origin it \<notin> origins flows" by (simp add: find_None_origins)
    have ne: "fs_origin f \<noteq> fs_origin it" if "f \<in> set flows" for f
      using no that by (rule notin_originsD)
    have "filter (\<lambda>f. fs_origin f \<notin> origins rest) flows
            = filter (\<lambda>f. fs_origin f \<notin> origins (it # rest)) flows"
      by (rule filter_cong) (simp_all add: origins_def ne)
    moreover have "merged_entry Inv g c flows it = snd (invalidated Inv g c it)"
      using None by (simp add: merged_entry_def)
    moreover have "entry_stays Inv g c flows it = (\<not> fst (invalidated Inv g c it))"
      using no by (simp add: entry_stays_def)
    ultimately show ?thesis
      using Cons.IH [OF d, of flows]
      by (simp add: merge_Cons_missing [OF None] del: FinaliseJob_merge.simps)
  next
    case (Some n)
    then have yes: "fs_origin it \<in> origins flows"
      using find_None_origins [of flows "fs_origin it"] by auto
    let ?fl = "FlowStatMap_erase (fs_origin it) flows"
    have same: "merged_entry Inv g c ?fl x = merged_entry Inv g c flows x
                \<and> entry_stays Inv g c ?fl x = entry_stays Inv g c flows x"
      if "x \<in> set rest" for x
    proof -
      from nin that have "fs_origin x \<noteq> fs_origin it" by (rule notin_originsD)
      then show ?thesis
        by (auto simp: merged_entry_def entry_stays_def find_erase_other origins_erase)
    qed
    have k: "map (merged_entry Inv g c ?fl) (filter (entry_stays Inv g c ?fl) rest)
             = map (merged_entry Inv g c flows) (filter (entry_stays Inv g c flows) rest)"
      using same by (auto intro!: map_cong filter_cong)
    have l: "filter (\<lambda>f. fs_origin f \<notin> origins rest) ?fl
             = filter (\<lambda>f. fs_origin f \<notin> origins (it # rest)) flows"
      unfolding FlowStatMap_erase_def filter_filter
      by (rule filter_cong) (auto simp: origins_def)
    have e1: "merged_entry Inv g c flows it = n"
      using Some by (simp add: merged_entry_def)
    have e2: "entry_stays Inv g c flows it"
      using yes by (simp add: entry_stays_def)
    from Cons.IH [OF d, of ?fl] show ?thesis
      by (simp add: merge_Cons_found [OF Some] k l e1 e2 del: FinaliseJob_merge.simps)
  qed
qed

lemma insert_flows_append:
  "distinct (map fs_origin xs) \<Longrightarrow> origins xs \<inter> origins m = {} \<Longrightarrow> insert_flows xs m = m @ xs"
proof (induction xs arbitrary: m)
  case Nil
  then show ?case by simp
next
  case (Cons x xs)
  from Cons.prems have a: "fs_origin x \<notin> origins m" and d: "distinct (map fs_origin xs)"
    and b: "origins xs \<inter> origins (m @ [x]) = {}"
    by (auto simp: origins_def)
  from a have "FlowStatMap_insert x m = m @ [x]"
    by (simp add: FlowStatMap_insert_def origins_def)
  with Cons.IH [OF d b] show ?case by simp
qed

lemma origin_merged_entry:
  "\<forall>f. fs_origin (snd (Inv f)) = fs_origin f \<Longrightarrow>
     fs_origin (merged_entry Inv g c flows it) = fs_origin it"
  by (auto simp: merged_entry_def invalidated_def dest: find_Some_origin split: option.splits)

lemma merged_entry_found:
  "distinct (map fs_origin flows) \<Longrightarrow> n \<in> set flows \<Longrightarrow> fs_origin it = fs_origin n \<Longrightarrow>
     merged_entry Inv g c flows it = n \<and> entry_stays Inv g c flows it"
  using find_distinct [of flows n]
  by (simp add: merged_entry_def entry_stays_def origins_def)

lemma merged_entry_missing:
  "fs_origin it \<notin> origins flows \<Longrightarrow>
     merged_entry Inv g c flows it = snd (invalidated Inv g c it)
     \<and> entry_stays Inv g c flows it = (\<not> fst (invalidated Inv g c it))"
  using find_None_origins [of flows "fs_origin it"]
  by (simp add: merged_entry_def entry_stays_def)

lemma merged_entry_in_flows:
  "fs_origin it \<in> origins flows \<Longrightarrow> merged_entry Inv g c flows it \<in> set flows"
  using find_None_origins [of flows "fs_origin it"]
  by (auto simp: merged_entry_def dest: find_Some_origin split: option.splits)

lemma kept_set:
  assumes dc: "distinct (map fs_origin flows)"
  shows "set (map (merged_entry Inv g c flows) (filter (entry_stays Inv g c flows) live))
           \<union> set (filter (\<lambda>f. fs_origin f \<notin> origins live) flows)
         = set flows \<union> set (live_kept Inv g c live flows)" (is "?K \<union> ?L = ?F \<union> ?V")
proof (rule set_eqI, rule iffI)
  fix x assume "x \<in> ?K \<union> ?L"
  then consider (k) it where "it \<in> set live" "entry_stays Inv g c flows it"
      "x = merged_entry Inv g c flows it" | (l) "x \<in> ?L"
    by auto
  then show "x \<in> ?F \<union> ?V"
  proof cases
    case k
    show ?thesis
    proof (cases "fs_origin it \<in> origins flows")
      case True
      from merged_entry_in_flows [OF True] k show ?thesis by simp
    next
      case False
      from merged_entry_missing [OF False, of Inv g c] k
      have a: "x = snd (invalidated Inv g c it)" "\<not> fst (invalidated Inv g c it)" by simp_all
      from a(2) have m: "GetDistributionType g c \<noteq> DT_MANUAL" "\<not> fst (Inv it)"
        by (auto simp: invalidated_def split: if_splits)
      with a(1) have "x = snd (Inv it)" by (simp add: invalidated_def)
      with m False k(1) have "x \<in> ?V" by (auto simp: live_kept_def)
      then show ?thesis by simp
    qed
  next
    case l
    then show ?thesis by simp
  qed
next
  fix x assume "x \<in> ?F \<union> ?V"
  then consider (f) "x \<in> set flows" | (v) "x \<in> ?V" by auto
  then show "x \<in> ?K \<union> ?L"
  proof cases
    case f
    show ?thesis
    proof (cases "fs_origin x \<in> origins live")
      case True
      then obtain it where it: "it \<in> set live" "fs_origin it = fs_origin x"
        by (auto simp: origins_def)
      from merged_entry_found [OF dc f it(2), of Inv g c] it(1) have "x \<in> ?K"
        by (auto simp: image_iff intro!: bexI [of _ it])
      then show ?thesis by simp
    next
      case False
      with f show ?thesis by simp
    qed
  next
    case v
    then obtain it where it: "it \<in> set live" "fs_origin it \<notin> origins flows"
      "GetDistributionType g c \<noteq> DT_MANUAL" "\<not> fst (Inv it)" "x = snd (Inv it)"
      by (auto simp: live_kept_def)
    from merged_entry_missing [OF it(2), of Inv g c] it(3,4,5)
    have "merged_entry Inv g c flows it = x" "entry_stays Inv g c flows it"
      by (simp_all add: invalidated_def)
    with it(1) have "x \<in> ?K" by (auto simp: image_iff intro!: bexI [of _ it])
    then show ?thesis by simp
  qed
qed

text \<open>C2, as amended: with one entry per origin in the live and in the computed table, and
  an \<^verbatim>\<open>Invalidate\<close> that keeps the origin of an entry, the merged table has one entry
  per origin, in the order of the origins, and holds exactly the computed entries, so
  the computed shares win for an origin in both tables, and the invalidated live entries
  that have no computed entry, distribution being automatic and \<^verbatim>\<open>Invalidate\<close> not
  asking to erase them.\<close>

theorem merge_station_result:
  assumes dl: "distinct (map fs_origin live)" and dc: "distinct (map fs_origin flows)"
    and po: "\<forall>f. fs_origin (snd (Invalidate f)) = fs_origin f"
  shows "set (merge_station Invalidate g c st live flows)
           = set flows \<union> set (live_kept Invalidate g c live flows)
         \<and> distinct (map fs_origin (merge_station Invalidate g c st live flows))
         \<and> sorted (map fs_origin (merge_station Invalidate g c st live flows))
         \<and> (\<forall>n \<in> set flows.
               FlowStatMap_find (merge_station Invalidate g c st live flows) (fs_origin n) = Some n)"
proof -
  let ?kept = "map (merged_entry Invalidate g c flows) (filter (entry_stays Invalidate g c flows) live)"
  let ?left = "filter (\<lambda>f. fs_origin f \<notin> origins live) flows"
  let ?R = "merge_station Invalidate g c st live flows"
  from merge_result [OF dl, of Invalidate g c st flows] have
    k: "fst (FinaliseJob_merge Invalidate g c st live flows) = ?kept"
    and l: "fst (snd (FinaliseJob_merge Invalidate g c st live flows)) = ?left"
    by simp_all
  have ok: "map fs_origin ?kept = map fs_origin (filter (entry_stays Invalidate g c flows) live)"
    using origin_merged_entry [OF po] by simp
  have dk: "distinct (map fs_origin ?kept)"
    unfolding ok using dl by (simp add: distinct_map_filter)
  have dle: "distinct (map fs_origin ?left)"
    using dc by (simp add: distinct_map_filter)
  have "origins ?kept \<subseteq> origins live"
    using ok by (auto simp: origins_def dest!: arg_cong [where f = set])
  then have dj: "origins ?left \<inter> origins ?kept = {}"
    by (auto simp: origins_def)
  have R: "?R = sort_key fs_origin (?kept @ ?left)"
    using insert_flows_append [OF dle dj]
    by (simp add: merge_station_def Let_def k l SortStorage_def del: FinaliseJob_merge.simps)
  have s: "set ?R = set flows \<union> set (live_kept Invalidate g c live flows)"
    unfolding R using kept_set [OF dc, of Invalidate g c live] by simp
  have "distinct (map fs_origin (?kept @ ?left))"
    using dk dle dj by (auto simp: origins_def)
  then have d: "distinct (map fs_origin ?R)"
    unfolding R by (simp add: distinct_map del: map_append)
  have so: "sorted (map fs_origin ?R)"
    unfolding R by simp
  have f: "\<forall>n \<in> set flows. FlowStatMap_find ?R (fs_origin n) = Some n"
    using find_distinct [OF d] s by simp
  from s d so f show ?thesis by simp
qed

theorem merge_station_result_witness:
  "distinct (map fs_origin [\<lparr> fs_origin = 1, fs_shares = [share_to 7] \<rparr>,
                            \<lparr> fs_origin = 2, fs_shares = [share_to 8] \<rparr>])
   \<and> distinct (map fs_origin [\<lparr> fs_origin = 3, fs_shares = [share_to 9] \<rparr>,
                              \<lparr> fs_origin = 2, fs_shares = [share_to 9] \<rparr>])
   \<and> merge_station Invalidate_keep ex_settings 0 0
        [\<lparr> fs_origin = 1, fs_shares = [share_to 7] \<rparr>, \<lparr> fs_origin = 2, fs_shares = [share_to 8] \<rparr>]
        [\<lparr> fs_origin = 3, fs_shares = [share_to 9] \<rparr>, \<lparr> fs_origin = 2, fs_shares = [share_to 9] \<rparr>]
      = [\<lparr> fs_origin = 1, fs_shares = [share_to 7] \<rparr>,
         \<lparr> fs_origin = 2, fs_shares = [share_to 9] \<rparr>,
         \<lparr> fs_origin = 3, fs_shares = [share_to 9] \<rparr>]
   \<and> FlowStatMap_find
        (merge_station Invalidate_keep ex_settings 0 0
          [\<lparr> fs_origin = 1, fs_shares = [share_to 7] \<rparr>, \<lparr> fs_origin = 2, fs_shares = [share_to 8] \<rparr>]
          [\<lparr> fs_origin = 3, fs_shares = [share_to 9] \<rparr>, \<lparr> fs_origin = 2, fs_shares = [share_to 9] \<rparr>])
        2 = Some \<lparr> fs_origin = 2, fs_shares = [share_to 9] \<rparr>"
proof -
  let ?L = "[\<lparr> fs_origin = 1, fs_shares = [share_to 7] \<rparr>, \<lparr> fs_origin = 2, fs_shares = [share_to 8] \<rparr>]"
  let ?C = "[\<lparr> fs_origin = 3, fs_shares = [share_to 9] \<rparr>, \<lparr> fs_origin = 2, fs_shares = [share_to 9] \<rparr>]"
  have dl: "distinct (map fs_origin ?L)" and dc: "distinct (map fs_origin ?C)" by simp_all
  have po: "\<forall>f. fs_origin (snd (Invalidate_keep f)) = fs_origin f"
    by (simp add: Invalidate_keep_def)
  have m: "merge_station Invalidate_keep ex_settings 0 0 ?L ?C
      = [\<lparr> fs_origin = 1, fs_shares = [share_to 7] \<rparr>,
         \<lparr> fs_origin = 2, fs_shares = [share_to 9] \<rparr>,
         \<lparr> fs_origin = 3, fs_shares = [share_to 9] \<rparr>]"
    by (simp add: merge_station_def Let_def FlowStatMap_find_def FlowStatMap_erase_def
          FlowStatMap_insert_def SortStorage_def SwapShares_def GetDistributionType_def
          ex_settings_def Invalidate_keep_def)
  from merge_station_result [OF dl dc po, of ex_settings 0 0]
  have "FlowStatMap_find (merge_station Invalidate_keep ex_settings 0 0 ?L ?C) 2
          = Some \<lparr> fs_origin = 2, fs_shares = [share_to 9] \<rparr>"
    by simp
  with dl dc m show ?thesis by simp
qed

text \<open>C2 as stated fails for disjoint origins: with manual distribution the live entry of
  origin 1, missing from the computed flows, is erased, and the merged table is the
  computed one alone, not the union.\<close>

theorem merge_station_counterexample:
  "merge_station Invalidate_keep manual_settings 0 0
     [\<lparr> fs_origin = 1, fs_shares = [share_to 7] \<rparr>] [\<lparr> fs_origin = 3, fs_shares = [share_to 9] \<rparr>]
   = [\<lparr> fs_origin = 3, fs_shares = [share_to 9] \<rparr>]"
  by (simp add: merge_station_def Let_def FlowStatMap_find_def FlowStatMap_erase_def
        FlowStatMap_insert_def SortStorage_def SwapShares_def GetDistributionType_def
        ex_settings_def manual_settings_def)

lemma has_share_to_iff:
  "has_share_to via m = (\<exists>f \<in> set m. \<exists>s \<in> set (fs_shares f). share_via s = via)"
  by (simp add: has_share_to_def list_ex_iff)

lemma erase_popped_eq: "erase_popped erased m = filter (\<lambda>f. fs_origin f \<notin> set erased) m"
proof (induction erased arbitrary: m rule: rev_induct)
  case Nil
  then show ?case by (subst erase_popped.simps) simp
next
  case (snoc x xs)
  have "erase_popped (xs @ [x]) m = erase_popped xs (FlowStatMap_erase x m)"
    by (subst erase_popped.simps) simp
  also have "\<dots> = filter (\<lambda>f. fs_origin f \<notin> set xs) (FlowStatMap_erase x m)"
    by (rule snoc.IH)
  also have "\<dots> = filter (\<lambda>f. fs_origin f \<notin> set (xs @ [x])) m"
    by (auto simp: FlowStatMap_erase_def intro!: filter_cong)
  finally show ?case .
qed

lemma DeleteFlows_shares:
  "set (snd (DeleteFlows via m))
     = {f\<lparr>fs_shares := filter (\<lambda>s. share_via s \<noteq> via) (fs_shares f)\<rparr> | f.
          f \<in> set m \<and> filter (\<lambda>s. share_via s \<noteq> via) (fs_shares f) \<noteq> []}"
  by (induction m) (auto simp: Let_def)

lemma DeleteFlows_erased:
  "set (fst (DeleteFlows via m))
     = {fs_origin f | f. f \<in> set m \<and> filter (\<lambda>s. share_via s \<noteq> via) (fs_shares f) = []}"
  by (induction m) (auto simp: Let_def)

lemma DeleteFlows_no_share: "\<not> has_share_to via (snd (DeleteFlows via m))"
  by (auto simp: has_share_to_iff DeleteFlows_shares)

lemma DeleteFlows_mono:
  "has_share_to v (snd (DeleteFlows via m)) \<Longrightarrow> has_share_to v m"
  by (fastforce simp: has_share_to_iff DeleteFlows_shares)

lemma DeleteFlows_origins:
  "origins (snd (DeleteFlows via m)) \<subseteq> origins m"
  by (auto simp: origins_def DeleteFlows_shares)

lemma DeleteFlows_cascade:
  "x \<in> origins m \<Longrightarrow> x \<notin> origins (snd (DeleteFlows via m)) \<Longrightarrow> x \<in> set (fst (DeleteFlows via m))"
proof -
  assume a: "x \<in> origins m" and b: "x \<notin> origins (snd (DeleteFlows via m))"
  from a obtain f where f: "f \<in> set m" "fs_origin f = x" by (auto simp: origins_def)
  have "filter (\<lambda>s. share_via s \<noteq> via) (fs_shares f) = []"
  proof (rule ccontr)
    assume "filter (\<lambda>s. share_via s \<noteq> via) (fs_shares f) \<noteq> []"
    with f(1) have "f\<lparr>fs_shares := filter (\<lambda>s. share_via s \<noteq> via) (fs_shares f)\<rparr>
                     \<in> set (snd (DeleteFlows via m))"
      unfolding DeleteFlows_shares by blast
    moreover have "fs_origin (f\<lparr>fs_shares := filter (\<lambda>s. share_via s \<noteq> via) (fs_shares f)\<rparr>) = x"
      using f(2) by simp
    ultimately have "x \<in> origins (snd (DeleteFlows via m))"
      unfolding origins_def by (metis imageI)
    with b show False by simp
  qed
  with f show ?thesis unfolding DeleteFlows_erased by blast
qed

lemma restricted_shares_via:
  "list_ex (\<lambda>s. share_via s = v)
       (map (\<lambda>s. if share_via s = via then s\<lparr>share_restricted := True\<rparr> else s) xs)
     = list_ex (\<lambda>s. share_via s = v) xs"
  by (induction xs) auto

lemma RestrictFlows_share [simp]: "has_share_to v (RestrictFlows via m) = has_share_to v m"
  by (induction m) (simp_all add: has_share_to_def RestrictFlows_def restricted_shares_via)

lemma RestrictFlows_origins [simp]: "origins (RestrictFlows via m) = origins m"
  by (auto simp: origins_def RestrictFlows_def image_iff)

lemma FinaliseJob_edges_lemma:
  "FinaliseJob_edges w job lg node_id its (fl, lv) = (fl', lv') \<Longrightarrow>
     (\<forall>v. has_share_to v fl' \<longrightarrow> has_share_to v fl)
     \<and> origins fl' \<subseteq> origins fl \<and> origins lv' \<subseteq> origins lv
     \<and> (\<forall>x. x \<in> origins fl \<and> x \<notin> origins fl' \<longrightarrow> x \<notin> origins lv')
     \<and> (\<forall>t \<in> set its. Edge_Flow job node_id t \<noteq> 0 \<and> edge_removed w job lg node_id t
           \<longrightarrow> \<not> has_share_to (lg_station (link_graph job) t) fl')"
proof (induction its arbitrary: fl lv)
  case Nil
  then show ?case by simp
next
  case (Cons t its)
  let ?to = "lg_station (link_graph job) t"
  let ?P = "\<lambda>fl lv. (\<forall>v. has_share_to v fl' \<longrightarrow> has_share_to v fl)
     \<and> origins fl' \<subseteq> origins fl \<and> origins lv' \<subseteq> origins lv
     \<and> (\<forall>x. x \<in> origins fl \<and> x \<notin> origins fl' \<longrightarrow> x \<notin> origins lv')
     \<and> (\<forall>t \<in> set its. Edge_Flow job node_id t \<noteq> 0 \<and> edge_removed w job lg node_id t
           \<longrightarrow> \<not> has_share_to (lg_station (link_graph job) t) fl')"
  consider (skip) "Edge_Flow job node_id t = 0"
    | (del) "Edge_Flow job node_id t \<noteq> 0" "edge_removed w job lg node_id t"
    | (res) "Edge_Flow job node_id t \<noteq> 0" "\<not> edge_removed w job lg node_id t"
        "lg_last_unrestricted_update lg node_id t = INVALID_DATE"
    | (keep) "Edge_Flow job node_id t \<noteq> 0" "\<not> edge_removed w job lg node_id t"
        "lg_last_unrestricted_update lg node_id t \<noteq> INVALID_DATE"
    by blast
  then show ?case
  proof cases
    case skip
    with Cons.prems have "FinaliseJob_edges w job lg node_id its (fl, lv) = (fl', lv')" by simp
    from Cons.IH [OF this] skip show ?thesis by simp
  next
    case keep
    with Cons.prems have "FinaliseJob_edges w job lg node_id its (fl, lv) = (fl', lv')" by simp
    from Cons.IH [OF this] keep show ?thesis by simp
  next
    case res
    with Cons.prems have
      "FinaliseJob_edges w job lg node_id its (RestrictFlows ?to fl, lv) = (fl', lv')" by simp
    from Cons.IH [OF this] res show ?thesis by simp
  next
    case del
    let ?fl1 = "snd (DeleteFlows ?to fl)"
    let ?lv1 = "erase_popped (fst (DeleteFlows ?to fl)) lv"
    from del Cons.prems have
      "FinaliseJob_edges w job lg node_id its (?fl1, ?lv1) = (fl', lv')" by simp
    from Cons.IH [OF this] have ih: "?P ?fl1 ?lv1" .
    have l1: "origins ?lv1 \<subseteq> origins lv"
      by (auto simp: erase_popped_eq origins_def)
    have c1: "x \<notin> origins ?lv1" if "x \<in> origins fl" "x \<notin> origins ?fl1" for x
      using DeleteFlows_cascade [OF that] by (auto simp: erase_popped_eq origins_def)
    have a: "\<forall>v. has_share_to v fl' \<longrightarrow> has_share_to v fl"
      using ih DeleteFlows_mono by blast
    have b: "origins fl' \<subseteq> origins fl"
      using ih DeleteFlows_origins [of ?to fl] by blast
    have c: "origins lv' \<subseteq> origins lv"
      using ih l1 by blast
    have d: "\<forall>x. x \<in> origins fl \<and> x \<notin> origins fl' \<longrightarrow> x \<notin> origins lv'"
      using ih c1 by blast
    have "\<not> has_share_to ?to fl'"
      using ih DeleteFlows_no_share [of ?to fl] by blast
    then have e: "\<forall>t \<in> set (t # its). Edge_Flow job node_id t \<noteq> 0 \<and> edge_removed w job lg node_id t
           \<longrightarrow> \<not> has_share_to (lg_station (link_graph job) t) fl'"
      using ih by simp
    from a b c d e show ?thesis by blast
  qed
qed

lemma shares_of_eq:
  "shares_of m = {(fs_origin f, share_via s, share_flow s) | f s. f \<in> set m \<and> s \<in> set (fs_shares f)}"
  by (auto simp: shares_of_def)

lemma shares_of_DeleteFlows:
  "shares_of (snd (DeleteFlows via m)) = {x \<in> shares_of m. fst (snd x) \<noteq> via}"
proof (rule set_eqI, rule iffI)
  fix x assume "x \<in> shares_of (snd (DeleteFlows via m))"
  then obtain g s where g: "g \<in> set (snd (DeleteFlows via m))" "s \<in> set (fs_shares g)"
    "x = (fs_origin g, share_via s, share_flow s)"
    by (auto simp: shares_of_eq)
  from g(1) obtain f where f: "f \<in> set m"
    "g = f\<lparr>fs_shares := filter (\<lambda>s. share_via s \<noteq> via) (fs_shares f)\<rparr>"
    unfolding DeleteFlows_shares by blast
  from g(2) f(2) have "s \<in> set (fs_shares f)" "share_via s \<noteq> via" by simp_all
  with f g(3) show "x \<in> {x \<in> shares_of m. fst (snd x) \<noteq> via}"
    by (auto simp: shares_of_eq)
next
  fix x assume "x \<in> {x \<in> shares_of m. fst (snd x) \<noteq> via}"
  then obtain f s where f: "f \<in> set m" "s \<in> set (fs_shares f)"
    "x = (fs_origin f, share_via s, share_flow s)" "share_via s \<noteq> via"
    by (auto simp: shares_of_eq)
  let ?g = "f\<lparr>fs_shares := filter (\<lambda>s. share_via s \<noteq> via) (fs_shares f)\<rparr>"
  from f(2,4) have m: "s \<in> set (fs_shares ?g)" by simp
  have "filter (\<lambda>s. share_via s \<noteq> via) (fs_shares f) \<noteq> []"
    using f(2,4) by (auto simp: filter_empty_conv)
  with f(1) have "?g \<in> set (snd (DeleteFlows via m))"
    unfolding DeleteFlows_shares by blast
  moreover have "x = (fs_origin ?g, share_via s, share_flow s)" using f(3) by simp
  ultimately show "x \<in> shares_of (snd (DeleteFlows via m))"
    using m unfolding shares_of_eq by blast
qed

lemma shares_of_RestrictFlows: "shares_of (RestrictFlows via m) = shares_of m"
proof (rule set_eqI, rule iffI)
  fix x assume "x \<in> shares_of (RestrictFlows via m)"
  then obtain f s where "f \<in> set m" "s \<in> set (fs_shares f)"
    "x = (fs_origin f, share_via (if share_via s = via then s\<lparr>share_restricted := True\<rparr> else s),
          share_flow (if share_via s = via then s\<lparr>share_restricted := True\<rparr> else s))"
    by (auto simp: shares_of_eq RestrictFlows_def)
  then show "x \<in> shares_of m"
    unfolding shares_of_eq by (cases "share_via s = via") auto
next
  fix x assume "x \<in> shares_of m"
  then obtain f s where f: "f \<in> set m" "s \<in> set (fs_shares f)"
    "x = (fs_origin f, share_via s, share_flow s)"
    by (auto simp: shares_of_eq)
  let ?r = "\<lambda>s. if share_via s = via then s\<lparr>share_restricted := True\<rparr> else s"
  let ?g = "f\<lparr>fs_shares := map ?r (fs_shares f)\<rparr>"
  have "?g \<in> set (RestrictFlows via m)" using f(1) by (auto simp: RestrictFlows_def)
  moreover have "?r s \<in> set (fs_shares ?g)" using f(2) by auto
  moreover have "x = (fs_origin ?g, share_via (?r s), share_flow (?r s))" using f(3) by simp
  ultimately show "x \<in> shares_of (RestrictFlows via m)"
    unfolding shares_of_eq by blast
qed

lemma map_origin_DeleteFlows:
  "distinct (map fs_origin m) \<Longrightarrow> distinct (map fs_origin (snd (DeleteFlows via m)))"
proof (induction m)
  case Nil
  then show ?case by simp
next
  case (Cons f m)
  have "origins (snd (DeleteFlows via m)) \<subseteq> origins m" by (rule DeleteFlows_origins)
  with Cons show ?case by (auto simp: Let_def origins_def)
qed

lemma map_origin_RestrictFlows [simp]:
  "map fs_origin (RestrictFlows via m) = map fs_origin m"
  by (simp add: RestrictFlows_def comp_def)

lemma DeleteFlows_erased_exact:
  assumes "distinct (map fs_origin m)"
  shows "set (fst (DeleteFlows via m)) = origins m - origins (snd (DeleteFlows via m))"
proof -
  have a: "set (fst (DeleteFlows via m)) \<union> origins (snd (DeleteFlows via m)) = origins m"
    by (induction m) (auto simp: Let_def origins_def)
  have b: "set (fst (DeleteFlows via m)) \<inter> origins (snd (DeleteFlows via m)) = {}"
    using assms
  proof (induction m)
    case Nil
    then show ?case by (simp add: origins_def)
  next
    case (Cons f m)
    have s1: "origins (snd (DeleteFlows via m)) \<subseteq> origins m" by (rule DeleteFlows_origins)
    have s2: "set (fst (DeleteFlows via m)) \<subseteq> origins m"
      by (auto simp: DeleteFlows_erased origins_def)
    from Cons.prems have nf: "fs_origin f \<notin> origins m" and d: "distinct (map fs_origin m)"
      by (auto simp: origins_def)
    from Cons.IH [OF d] s1 s2 nf show ?case
      by (auto simp: Let_def origins_def)
  qed
  from a b show ?thesis by blast
qed

lemma FinaliseJob_edges_exact:
  "FinaliseJob_edges w job lg node_id its (fl, lv) = (fl', lv') \<Longrightarrow>
     shares_of fl' = {x \<in> shares_of fl. fst (snd x) \<notin> set (removed_stations w job lg node_id its)}
     \<and> (distinct (map fs_origin fl) \<longrightarrow>
          distinct (map fs_origin fl')
          \<and> lv' = filter (\<lambda>f. fs_origin f \<in> origins fl \<longrightarrow> fs_origin f \<in> origins fl') lv)"
proof (induction its arbitrary: fl lv)
  case Nil
  then show ?case by (auto simp: removed_stations_def intro: filter_True [symmetric])
next
  case (Cons t its)
  let ?to = "lg_station (link_graph job) t"
  consider (skip) "Edge_Flow job node_id t = 0"
    | (del) "Edge_Flow job node_id t \<noteq> 0" "edge_removed w job lg node_id t"
    | (res) "Edge_Flow job node_id t \<noteq> 0" "\<not> edge_removed w job lg node_id t"
        "lg_last_unrestricted_update lg node_id t = INVALID_DATE"
    | (keep) "Edge_Flow job node_id t \<noteq> 0" "\<not> edge_removed w job lg node_id t"
        "lg_last_unrestricted_update lg node_id t \<noteq> INVALID_DATE"
    by blast
  then show ?case
  proof cases
    case skip
    with Cons.prems have "FinaliseJob_edges w job lg node_id its (fl, lv) = (fl', lv')" by simp
    from Cons.IH [OF this] skip show ?thesis by (simp add: removed_stations_def)
  next
    case keep
    with Cons.prems have "FinaliseJob_edges w job lg node_id its (fl, lv) = (fl', lv')" by simp
    from Cons.IH [OF this] keep show ?thesis by (simp add: removed_stations_def)
  next
    case res
    with Cons.prems have
      "FinaliseJob_edges w job lg node_id its (RestrictFlows ?to fl, lv) = (fl', lv')" by simp
    from Cons.IH [OF this] res show ?thesis
      by (simp add: removed_stations_def shares_of_RestrictFlows)
  next
    case del
    let ?fl1 = "snd (DeleteFlows ?to fl)"
    let ?lv1 = "erase_popped (fst (DeleteFlows ?to fl)) lv"
    from del Cons.prems have
      e: "FinaliseJob_edges w job lg node_id its (?fl1, ?lv1) = (fl', lv')" by simp
    from Cons.IH [OF e] have
      s: "shares_of fl' = {x \<in> shares_of ?fl1. fst (snd x) \<notin> set (removed_stations w job lg node_id its)}"
      and x: "distinct (map fs_origin ?fl1) \<longrightarrow>
          distinct (map fs_origin fl')
          \<and> lv' = filter (\<lambda>f. fs_origin f \<in> origins ?fl1 \<longrightarrow> fs_origin f \<in> origins fl') ?lv1"
      by simp_all
    have r: "removed_stations w job lg node_id (t # its) = ?to # removed_stations w job lg node_id its"
      using del by (simp add: removed_stations_def)
    have a: "shares_of fl' = {x \<in> shares_of fl. fst (snd x) \<notin> set (removed_stations w job lg node_id (t # its))}"
      unfolding s r shares_of_DeleteFlows by auto
    have b: "distinct (map fs_origin fl')
          \<and> lv' = filter (\<lambda>f. fs_origin f \<in> origins fl \<longrightarrow> fs_origin f \<in> origins fl') lv"
      if d: "distinct (map fs_origin fl)"
    proof -
      from map_origin_DeleteFlows [OF d] x have d': "distinct (map fs_origin fl')"
        and l: "lv' = filter (\<lambda>f. fs_origin f \<in> origins ?fl1 \<longrightarrow> fs_origin f \<in> origins fl') ?lv1"
        by simp_all
      have l1: "?lv1 = filter (\<lambda>f. fs_origin f \<in> origins fl \<longrightarrow> fs_origin f \<in> origins ?fl1) lv"
        unfolding erase_popped_eq DeleteFlows_erased_exact [OF d]
        by (rule filter_cong) auto
      have s1: "origins ?fl1 \<subseteq> origins fl" by (rule DeleteFlows_origins)
      have s2: "origins fl' \<subseteq> origins ?fl1"
        using FinaliseJob_edges_lemma [OF e] by blast
      have "lv' = filter (\<lambda>f. fs_origin f \<in> origins fl \<longrightarrow> fs_origin f \<in> origins fl') lv"
        unfolding l l1 filter_filter using s1 s2 by (intro filter_cong) auto
      with d' show ?thesis by simp
    qed
    from a b show ?thesis by blast
  qed
qed

text \<open>C6, as amended: after the loop over the edges of a node, for every edge with flow
  whose destination station is gone, belongs to another graph or node, or whose live
  edge was never updated, the computed flows of the node have no share to that station;
  and every origin whose entry has been removed from the computed flows, its shares all
  deleted, has no live entry at the station any more. Nothing else is deleted: the shares
  of the computed flows afterwards are those of before whose next hop is not the
  destination of such an edge, and, the computed flows holding one entry for an origin as
  a \<^verbatim>\<open>FlowStatMap\<close> does, the live entries afterwards are those of before whose origin
  has not lost its entry in the computed flows.\<close>

theorem FinaliseJob_edges_removed:
  assumes "FinaliseJob_edges w job lg node_id its (fl, lv) = (fl', lv')"
  shows "(\<forall>t \<in> set its. Edge_Flow job node_id t \<noteq> 0 \<and> edge_removed w job lg node_id t
            \<longrightarrow> \<not> has_share_to (lg_station (link_graph job) t) fl')
         \<and> (\<forall>x. x \<in> origins fl \<and> x \<notin> origins fl' \<longrightarrow> x \<notin> origins lv')
         \<and> shares_of fl'
             = {x \<in> shares_of fl. fst (snd x) \<notin> set (removed_stations w job lg node_id its)}
         \<and> (distinct (map fs_origin fl)
              \<longrightarrow> lv' = filter (\<lambda>f. fs_origin f \<in> origins fl \<longrightarrow> fs_origin f \<in> origins fl') lv)"
  using FinaliseJob_edges_lemma [OF assms] FinaliseJob_edges_exact [OF assms] by blast

theorem FinaliseJob_edges_removed_witness:
  "FinaliseJob_edges ex_world ex_job_loaded ex_graph 0 [1]
       ([\<lparr> fs_origin = 5, fs_shares = [share_to 1] \<rparr>,
         \<lparr> fs_origin = 6, fs_shares = [share_to 1, share_to 2] \<rparr>],
        [\<lparr> fs_origin = 5, fs_shares = [share_to 2] \<rparr>,
         \<lparr> fs_origin = 7, fs_shares = [share_to 1] \<rparr>])
     = ([\<lparr> fs_origin = 6, fs_shares = [share_to 2] \<rparr>],
        [\<lparr> fs_origin = 7, fs_shares = [share_to 1] \<rparr>])
   \<and> Edge_Flow ex_job_loaded 0 1 \<noteq> 0 \<and> edge_removed ex_world ex_job_loaded ex_graph 0 1
   \<and> distinct (map fs_origin [\<lparr> fs_origin = 5, fs_shares = [share_to 1] \<rparr>,
                               \<lparr> fs_origin = 6, fs_shares = [share_to 1, share_to 2] \<rparr>])
   \<and> removed_stations ex_world ex_job_loaded ex_graph 0 [1] = [1]
   \<and> shares_of [\<lparr> fs_origin = 6, fs_shares = [share_to 2] \<rparr>] = {(6, 2, 1)}
   \<and> \<not> has_share_to (lg_station (link_graph ex_job_loaded) 1)
          [\<lparr> fs_origin = 6, fs_shares = [share_to 2] \<rparr>]
   \<and> 5 \<in> origins [\<lparr> fs_origin = 5, fs_shares = [share_to 1] \<rparr>,
                   \<lparr> fs_origin = 6, fs_shares = [share_to 1, share_to 2] \<rparr>]
   \<and> 5 \<notin> origins [\<lparr> fs_origin = 6, fs_shares = [share_to 2] \<rparr>]
   \<and> 5 \<notin> origins [\<lparr> fs_origin = 7, fs_shares = [share_to 1] \<rparr>]"
proof -
  have f: "Edge_Flow ex_job_loaded 0 1 \<noteq> 0"
    by (simp add: Edge_Flow_def ex_job_loaded_def)
  have r: "edge_removed ex_world ex_job_loaded ex_graph 0 1"
    by (simp add: edge_removed_def ex_world_def ex_job_loaded_def ex_job_def ex_graph_def)
  have st: "lg_station (link_graph ex_job_loaded) 1 = 1"
    "lg_station (link_graph ex_job_loaded) (Suc 0) = Suc 0"
    by (simp_all add: ex_job_loaded_def ex_job_def ex_graph_def)
  have e: "FinaliseJob_edges ex_world ex_job_loaded ex_graph 0 [1]
       ([\<lparr> fs_origin = 5, fs_shares = [share_to 1] \<rparr>,
         \<lparr> fs_origin = 6, fs_shares = [share_to 1, share_to 2] \<rparr>],
        [\<lparr> fs_origin = 5, fs_shares = [share_to 2] \<rparr>,
         \<lparr> fs_origin = 7, fs_shares = [share_to 1] \<rparr>])
     = ([\<lparr> fs_origin = 6, fs_shares = [share_to 2] \<rparr>],
        [\<lparr> fs_origin = 7, fs_shares = [share_to 1] \<rparr>])"
    using f r by (simp add: st erase_popped_eq Let_def share_to_def)
  from FinaliseJob_edges_removed [OF e] f r
  have "\<not> has_share_to (lg_station (link_graph ex_job_loaded) 1)
          [\<lparr> fs_origin = 6, fs_shares = [share_to 2] \<rparr>]
        \<and> (5 \<in> origins [\<lparr> fs_origin = 5, fs_shares = [share_to 1] \<rparr>,
                   \<lparr> fs_origin = 6, fs_shares = [share_to 1, share_to 2] \<rparr>]
             \<and> 5 \<notin> origins [\<lparr> fs_origin = 6, fs_shares = [share_to 2] \<rparr>]
           \<longrightarrow> 5 \<notin> origins [\<lparr> fs_origin = 7, fs_shares = [share_to 1] \<rparr>])"
    by simp
  with e f r st show ?thesis
    by (simp add: origins_def removed_stations_def shares_of_def share_to_def)
qed

text \<open>C6 as stated fails: the cascade follows the origins removed from the computed flows,
  not the destination of the removed edge. The edge from node 0 to node 1 carries flow
  and station 1 is gone; the computed flows of node 0 lose their entry of origin 5, whose
  only share went to station 1, and the live entry of origin 5 is erased with it, but the
  live entry whose origin is station 1 itself stays.\<close>

theorem FinaliseJob_edges_destination_counterexample:
  "Edge_Flow ex_job_loaded 0 1 \<noteq> 0
   \<and> edge_removed ex_world ex_job_loaded ex_graph 0 1
   \<and> lg_station (link_graph ex_job_loaded) 1 = 1
   \<and> FinaliseJob_edges ex_world ex_job_loaded ex_graph 0 [1]
       ([\<lparr> fs_origin = 5, fs_shares = [share_to 1] \<rparr>],
        [\<lparr> fs_origin = 1, fs_shares = [share_to 2] \<rparr>,
         \<lparr> fs_origin = 5, fs_shares = [share_to 2] \<rparr>])
     = ([], [\<lparr> fs_origin = 1, fs_shares = [share_to 2] \<rparr>])"
proof -
  have f: "Edge_Flow ex_job_loaded 0 1 \<noteq> 0"
    by (simp add: Edge_Flow_def ex_job_loaded_def)
  have r: "edge_removed ex_world ex_job_loaded ex_graph 0 1"
    by (simp add: edge_removed_def ex_world_def ex_job_loaded_def ex_job_def ex_graph_def)
  have st: "lg_station (link_graph ex_job_loaded) 1 = 1"
    "lg_station (link_graph ex_job_loaded) (Suc 0) = Suc 0"
    by (simp_all add: ex_job_loaded_def ex_job_def ex_graph_def)
  have "FinaliseJob_edges ex_world ex_job_loaded ex_graph 0 [1]
       ([\<lparr> fs_origin = 5, fs_shares = [share_to 1] \<rparr>],
        [\<lparr> fs_origin = 1, fs_shares = [share_to 2] \<rparr>,
         \<lparr> fs_origin = 5, fs_shares = [share_to 2] \<rparr>])
     = ([], [\<lparr> fs_origin = 1, fs_shares = [share_to 2] \<rparr>])"
    using f r by (simp add: st erase_popped_eq Let_def share_to_def)
  with f r st show ?thesis by simp
qed

text \<open>The loop body of \<^verbatim>\<open>FinaliseJob\<close> on a node whose station is still on this graph
  and node: the live flows of the station afterwards are the merge of what the edge loop
  leaves.\<close>

lemma FinaliseJob_node_valid:
  assumes "stations w (lg_station (link_graph job) node_id) = Some st"
    and "ge_link_graph (goods st (Cargo job)) = lg_index (link_graph job)"
    and "ge_node (goods st (Cargo job)) = node_id"
    and "link_graphs w (lg_index (link_graph job)) = Some lg"
    and "FinaliseJob_edges w job lg node_id (lg_edges (link_graph job) node_id)
           (node_flows job node_id, ge_flows (goods st (Cargo job))) = (fl, lv)"
  shows "live_flows (snd (FinaliseJob_node Invalidate g node_id (job, w)))
           (lg_station (link_graph job) node_id) (Cargo job)
         = merge_station Invalidate g (Cargo job) (lg_station (link_graph job) node_id) lv fl"
  using assms
  by (simp add: FinaliseJob_node_def Let_def live_flows_def merge_station_def
           del: FinaliseJob_merge.simps)

subsection \<open>FinaliseJob and the settings\<close>

lemma merge_same_manual:
  "(GetDistributionType g1 c = DT_MANUAL) = (GetDistributionType g2 c = DT_MANUAL) \<Longrightarrow>
     FinaliseJob_merge Inv g1 c st live flows = FinaliseJob_merge Inv g2 c st live flows"
  by (induction live arbitrary: flows) (auto simp: Let_def split: option.splits)

lemma node_same_manual:
  assumes "(GetDistributionType g1 (Cargo (fst s)) = DT_MANUAL)
             = (GetDistributionType g2 (Cargo (fst s)) = DT_MANUAL)"
  shows "FinaliseJob_node Inv g1 n s = FinaliseJob_node Inv g2 n s"
proof -
  have m: "FinaliseJob_merge Inv g1 (Cargo (fst s)) = FinaliseJob_merge Inv g2 (Cargo (fst s))"
    by (intro ext merge_same_manual assms)
  show ?thesis
    unfolding FinaliseJob_node_def Let_def m ..
qed

lemma link_graph_EraseFlows: "link_graph (EraseFlows X j) = link_graph j"
  by (simp add: EraseFlows_eq)

lemma Cargo_node: "Cargo (fst (FinaliseJob_node Inv g n s)) = Cargo (fst s)"
  by (simp add: FinaliseJob_node_def Let_def Cargo_def link_graph_EraseFlows
           split: option.splits del: FinaliseJob_merge.simps)

lemma nodes_same_manual:
  "(GetDistributionType g1 (Cargo (fst s)) = DT_MANUAL)
     = (GetDistributionType g2 (Cargo (fst s)) = DT_MANUAL) \<Longrightarrow>
     FinaliseJob_nodes Inv g1 sz k s = FinaliseJob_nodes Inv g2 sz k s"
proof (induction Inv g1 sz k s rule: FinaliseJob_nodes.induct)
  case (1 Inv g1 sz k s)
  show ?case
  proof (cases "k < sz")
    case True
    have n: "FinaliseJob_node Inv g1 k s = FinaliseJob_node Inv g2 k s"
      using "1.prems" by (rule node_same_manual)
    have "FinaliseJob_nodes Inv g1 sz k s
            = FinaliseJob_nodes Inv g1 sz (Suc k) (FinaliseJob_node Inv g1 k s)"
      using True by (subst FinaliseJob_nodes.simps) simp
    also have "\<dots> = FinaliseJob_nodes Inv g2 sz (Suc k) (FinaliseJob_node Inv g1 k s)"
      using True "1.prems" by (intro "1.IH") (simp_all add: Cargo_node)
    also have "\<dots> = FinaliseJob_nodes Inv g2 sz k s"
      using True by (subst (2) FinaliseJob_nodes.simps) (simp add: n)
    finally show ?thesis .
  next
    case False
    then show ?thesis
      by (subst FinaliseJob_nodes.simps, subst (2) FinaliseJob_nodes.simps) simp
  qed
qed

lemma FinaliseJob_same_manual:
  assumes "(GetDistributionType g1 (Cargo job) = DT_MANUAL)
             = (GetDistributionType g2 (Cargo job) = DT_MANUAL)"
  shows "FinaliseJob Invalidate g1 job w = FinaliseJob Invalidate g2 job w"
proof -
  have "Cargo (JoinThread job) = Cargo job"
    by (simp add: JoinThread_def Cargo_def split: option.splits)
  with assms show ?thesis
    by (simp add: FinaliseJob_def Let_def nodes_same_manual [of g1 _ g2])
qed

lemma JoinThread_settings: "JoinThread (job\<lparr>settings := x\<rparr>) = (JoinThread job)\<lparr>settings := x\<rparr>"
  by (simp add: JoinThread_def split: option.splits)

lemma EraseFlows_settings: "EraseFlows X (job\<lparr>settings := x\<rparr>) = (EraseFlows X job)\<lparr>settings := x\<rparr>"
  by (simp add: EraseFlows_eq Size_def cong: if_cong)

lemma Edge_Flow_settings: "Edge_Flow (job\<lparr>settings := x\<rparr>) a b = Edge_Flow job a b"
  by (simp add: Edge_Flow_def)

lemma edge_removed_settings:
  "edge_removed w (job\<lparr>settings := x\<rparr>) lg a b = edge_removed w job lg a b"
  by (simp add: edge_removed_def Cargo_def split: option.splits)

lemma edges_settings:
  "FinaliseJob_edges w (job\<lparr>settings := x\<rparr>) lg n its st = FinaliseJob_edges w job lg n its st"
  by (induction its arbitrary: st) (simp_all add: Edge_Flow_settings edge_removed_settings)

lemma node_settings:
  "FinaliseJob_node Inv g n (job\<lparr>settings := x\<rparr>, w)
     = ((fst (FinaliseJob_node Inv g n (job, w)))\<lparr>settings := x\<rparr>,
        snd (FinaliseJob_node Inv g n (job, w)))"
  by (simp add: FinaliseJob_node_def Let_def Cargo_def edges_settings EraseFlows_settings
           split: option.splits del: FinaliseJob_merge.simps)

lemma nodes_settings:
  "FinaliseJob_nodes Inv g sz k (job\<lparr>settings := x\<rparr>, w)
     = ((fst (FinaliseJob_nodes Inv g sz k (job, w)))\<lparr>settings := x\<rparr>,
        snd (FinaliseJob_nodes Inv g sz k (job, w)))"
proof (induction "sz - k" arbitrary: k job w)
  case 0
  then have "\<not> k < sz" by simp
  then show ?case
    by (subst FinaliseJob_nodes.simps, subst (2) FinaliseJob_nodes.simps,
        subst (3) FinaliseJob_nodes.simps) simp
next
  case (Suc d)
  then have lt: "k < sz" and d: "d = sz - Suc k" by simp_all
  obtain j1 w1 where n: "FinaliseJob_node Inv g k (job, w) = (j1, w1)"
    by (cases "FinaliseJob_node Inv g k (job, w)")
  have n': "FinaliseJob_node Inv g k (job\<lparr>settings := x\<rparr>, w) = (j1\<lparr>settings := x\<rparr>, w1)"
    by (simp add: node_settings n)
  have a: "FinaliseJob_nodes Inv g sz k (job\<lparr>settings := x\<rparr>, w)
             = FinaliseJob_nodes Inv g sz (Suc k) (j1\<lparr>settings := x\<rparr>, w1)"
    using lt by (subst FinaliseJob_nodes.simps) (simp add: n')
  have b: "FinaliseJob_nodes Inv g sz k (job, w) = FinaliseJob_nodes Inv g sz (Suc k) (j1, w1)"
    using lt by (subst FinaliseJob_nodes.simps) (simp add: n)
  show ?case
    unfolding a b by (rule Suc.hyps(1) [OF d])
qed

lemma FinaliseJob_settings:
  "FinaliseJob Inv g (job\<lparr>settings := x\<rparr>) w
     = ((fst (FinaliseJob Inv g job w))\<lparr>settings := x\<rparr>, snd (FinaliseJob Inv g job w))"
  by (simp add: FinaliseJob_def Let_def JoinThread_settings nodes_settings Size_def)

text \<open>The join date wraps at 32 bits: 64000 * 74 * 1000 is 4736000000, and the ticks are
  that number modulo \<open>2 ^ 32\<close>.\<close>

lemma GetLinkGraphJobJoinDateTicks_wraps:
  "GetLinkGraphJobJoinDateTicks long_game 1000 = Some 441032704"
  by (simp add: GetLinkGraphJobJoinDateTicks_def long_game_def ex_settings_def DAY_TICKS_def)

text \<open>With 65535 days and a multiplier of 600 the product read as an \<^verbatim>\<open>int\<close> is
  negative, and the division by a day length factor of 2 is the signed one.\<close>

lemma GetLinkGraphJobJoinDateTicks_signed:
  "GetLinkGraphJobJoinDateTicks
     (long_game\<lparr>settings_linkgraph := ex_settings\<lparr>recalc_time := 65535,
                                                     recalc_not_scaled_by_daylength := True\<rparr>,
                 day_length_factor := 2\<rparr>) 600
   = Some (- 692606648)"
  by (simp add: GetLinkGraphJobJoinDateTicks_def long_game_def ex_settings_def DAY_TICKS_def
        div_int_def)

lemma new_LinkGraphJob_snapshot:
  "new_LinkGraphJob game orig m = Some job \<Longrightarrow>
     settings job = settings_linkgraph game \<and> link_graph job = orig"
  by (auto simp: new_LinkGraphJob_def split: option.splits)

text \<open>C1, as amended: \<^verbatim>\<open>FinaliseJob\<close> reads the global link graph settings of the time
  of the call, and of them only whether the distribution type of the job's cargo is
  manual: two runs on the same job and world under global settings that agree on this
  give the same job and the same world. The settings snapshot of the job is not read:
  replacing it changes nothing in the resulting world.\<close>

theorem FinaliseJob_global_settings:
  "((GetDistributionType g1 (Cargo job) = DT_MANUAL) = (GetDistributionType g2 (Cargo job) = DT_MANUAL)
      \<longrightarrow> FinaliseJob Invalidate g1 job w = FinaliseJob Invalidate g2 job w)
   \<and> snd (FinaliseJob Invalidate g (job\<lparr>settings := x\<rparr>) w) = snd (FinaliseJob Invalidate g job w)"
  using FinaliseJob_same_manual [of g1 job g2 Invalidate w]
  by (simp add: FinaliseJob_settings)

theorem FinaliseJob_global_settings_witness:
  "(GetDistributionType ex_settings (Cargo ex_job) = DT_MANUAL)
     = (GetDistributionType symmetric_settings (Cargo ex_job) = DT_MANUAL)
   \<and> FinaliseJob Invalidate_keep ex_settings ex_job ex_world
       = FinaliseJob Invalidate_keep symmetric_settings ex_job ex_world
   \<and> snd (FinaliseJob Invalidate_keep ex_settings (ex_job\<lparr>settings := manual_settings\<rparr>) ex_world)
       = snd (FinaliseJob Invalidate_keep ex_settings ex_job ex_world)"
proof -
  have a: "(GetDistributionType ex_settings (Cargo ex_job) = DT_MANUAL)
     = (GetDistributionType symmetric_settings (Cargo ex_job) = DT_MANUAL)"
    by (simp add: GetDistributionType_def ex_settings_def symmetric_settings_def)
  from FinaliseJob_global_settings
         [of ex_settings ex_job symmetric_settings Invalidate_keep ex_world ex_settings
             manual_settings] a
  show ?thesis by simp
qed

lemma FinaliseJob_nodes_unroll2:
  "FinaliseJob_nodes Inv g 2 0 s = FinaliseJob_node Inv g 1 (FinaliseJob_node Inv g 0 s)"
  by (subst FinaliseJob_nodes.simps, simp, subst FinaliseJob_nodes.simps, simp,
      subst FinaliseJob_nodes.simps, simp)

text \<open>C1 as stated fails: the job below carries a snapshot with automatic distribution;
  station 0 has a live entry of origin 5 and the job computed no flow of that origin.
  Finalised while the global settings still say automatic, the entry is invalidated and
  kept; finalised after the global setting was changed to manual, it is erased.\<close>

theorem FinaliseJob_manual_counterexample:
  "settings ex_job = ex_settings
   \<and> live_flows (snd (FinaliseJob Invalidate_keep ex_settings ex_job ex_world)) 0 0
       = [\<lparr> fs_origin = 5, fs_shares = [share_to 1] \<rparr>]
   \<and> live_flows (snd (FinaliseJob Invalidate_keep manual_settings ex_job ex_world)) 0 0 = []"
proof -
  have j: "JoinThread ex_job = ex_job" by (simp add: JoinThread_def ex_job_def)
  have sz: "Size ex_job = 2" by (simp add: Size_def ex_job_def ex_graph_def)
  have v: "link_graphs ex_world (lg_index (link_graph ex_job)) = Some ex_graph"
    by (simp add: ex_job_def ex_world_def ex_graph_def)
  have f: "FinaliseJob Inv g ex_job ex_world
             = FinaliseJob_node Inv g 1 (FinaliseJob_node Inv g 0 (ex_job, ex_world))" for Inv g
    using v by (simp add: FinaliseJob_def j sz Let_def FinaliseJob_nodes_unroll2)
  note defs = FinaliseJob_node_def Let_def ex_job_def ex_world_def ex_graph_def Cargo_def
    EraseFlows_eq Size_def Edge_Flow_def live_flows_def FlowStatMap_find_def
    GetDistributionType_def ex_settings_def manual_settings_def Invalidate_keep_def
    SortStorage_def FlowStatMap_insert_def
  have a: "live_flows (snd (FinaliseJob Invalidate_keep ex_settings ex_job ex_world)) 0 0
       = [\<lparr> fs_origin = 5, fs_shares = [share_to 1] \<rparr>]"
    unfolding f by (simp add: defs)
  have b: "live_flows (snd (FinaliseJob Invalidate_keep manual_settings ex_job ex_world)) 0 0 = []"
    unfolding f by (simp add: defs)
  have c: "settings ex_job = ex_settings" by (simp add: ex_job_def)
  from a b c show ?thesis by simp
qed

end
